theory Spec2Isabelle
  imports Main "HOL-Library.Word" "HOL-Library.Multiset" "HOL-Library.Sublist"
begin

section \<open>JavaScript strings and values\<close>

text \<open>
  A JavaScript string is a sequence of UTF-16 code units: \<open>s.length\<close>, \<open>s[i]\<close> and
  \<open>s.slice\<close> count code units, while \<open>for (const ch of s)\<close> walks code points and
  hands out a surrogate pair as one two-unit string.  \<open>js\<close> writes an ASCII literal.
\<close>

type_synonym code_unit = "16 word"
type_synonym jsstring = "code_unit list"

definition js :: "string \<Rightarrow> jsstring" where
  "js s = map of_char s"

definition isHighSurrogate :: "code_unit \<Rightarrow> bool" where
  "isHighSurrogate c = (0xD800 \<le> c \<and> c \<le> 0xDBFF)"

definition isLowSurrogate :: "code_unit \<Rightarrow> bool" where
  "isLowSurrogate c = (0xDC00 \<le> c \<and> c \<le> 0xDFFF)"

text \<open>The string iterator used by \<open>for ... of\<close>: one element per code point.\<close>

fun codePoints :: "jsstring \<Rightarrow> jsstring list" where
  "codePoints [] = []"
| "codePoints [c] = [[c]]"
| "codePoints (c # d # cs) =
     (if isHighSurrogate c \<and> isLowSurrogate d then [c, d] # codePoints cs
      else [c] # codePoints (d # cs))"

text \<open>\<open>s[i]\<close>: a one-unit string, or \<open>undefined\<close> (\<open>None\<close>) outside the string.\<close>

definition charAt :: "jsstring \<Rightarrow> int \<Rightarrow> jsstring option" where
  "charAt s i = (if 0 \<le> i \<and> i < int (length s) then Some [s ! nat i] else None)"

text \<open>\<open>s.slice(a, b)\<close>: negative arguments count from the end, both are clamped.\<close>

definition slice :: "jsstring \<Rightarrow> int \<Rightarrow> int \<Rightarrow> jsstring" where
  "slice s a b =
     (let n = int (length s);
          from = (if a < 0 then max (n + a) 0 else min a n);
          to = (if b < 0 then max (n + b) 0 else min b n)
      in take (nat (to - from)) (drop (nat from) s))"

text \<open>
  \<open>String.prototype.toLowerCase\<close> and \<open>toUpperCase\<close> belong to the host, not to the
  repository: the functions below take them as the parameters \<open>toLowerCase\<close> and
  \<open>toUpperCase\<close>.  \<open>asciiLower\<close> and \<open>asciiUpper\<close> are their restrictions to ASCII text,
  used for the concrete runs.
\<close>

definition asciiLower :: "jsstring \<Rightarrow> jsstring" where
  "asciiLower s = map (\<lambda>c. if 0x41 \<le> c \<and> c \<le> 0x5A then c + 0x20 else c) s"

definition asciiUpper :: "jsstring \<Rightarrow> jsstring" where
  "asciiUpper s = map (\<lambda>c. if 0x61 \<le> c \<and> c \<le> 0x7A then c - 0x20 else c) s"

text \<open>
  The values a dynamically typed argument or a property lookup can hold here.  An
  object is known by its identity only; none of the objects met in this development
  has a \<open>toLowerCase\<close> method.
\<close>

datatype jsvalue =
    JUndefined
  | JNull
  | JBool bool
  | JNumber int
  | JString jsstring
  | JObject jsstring

fun truthy :: "jsvalue \<Rightarrow> bool" where
  "truthy JUndefined = False"
| "truthy JNull = False"
| "truthy (JBool b) = b"
| "truthy (JNumber n) = (n \<noteq> 0)"
| "truthy (JString s) = (s \<noteq> [])"
| "truthy (JObject a) = True"

datatype error = TypeError

section \<open>Shared constants\<close>

definition EXCLUDED_PATTERNS :: "jsstring list" where
  "EXCLUDED_PATTERNS = [js ''an'', js ''as'', js ''be'', js ''he'', js ''is'']"

section \<open>The Aho-Corasick automaton\<close>

text \<open>
  Nodes are objects that refer to each other (\<open>children\<close>, \<open>fail\<close>), so they live in
  a store: the list \<open>nodes\<close>, a node's address being its index; \<open>new AhoCorasickNode()\<close>
  appends to it.  The root is at address 0.  \<open>children\<close> is a \<open>Map\<close>, kept as an
  association list in insertion order, which is the order a \<open>Map\<close> is iterated in.
\<close>

record node =
  children :: "(jsstring \<times> nat) list"
  fail :: "nat option"
  outputs :: "jsstring list"
  depth :: nat

definition AhoCorasickNode :: node where
  "AhoCorasickNode = \<lparr>children = [], fail = None, outputs = [], depth = 0\<rparr>"

record automaton =
  nodes :: "node list"
  built :: bool

abbreviation root :: nat where
  "root \<equiv> 0"

definition AhoCorasick :: automaton where
  "AhoCorasick = \<lparr>nodes = [AhoCorasickNode], built = False\<rparr>"

text \<open>The loop of \<open>addPattern\<close> over the code points of the lowercased pattern.\<close>

fun insertChars :: "node list \<Rightarrow> nat \<Rightarrow> jsstring list \<Rightarrow> node list \<times> nat" where
  "insertChars ns n [] = (ns, n)"
| "insertChars ns n (c # cs) =
     (case map_of (children (ns ! n)) c of
        Some m \<Rightarrow> insertChars ns m cs
      | None \<Rightarrow>
          (let m = length ns;
               newNode = AhoCorasickNode\<lparr>depth := depth (ns ! n) + 1\<rparr>;
               ns' = ns[n := (ns ! n)\<lparr>children := children (ns ! n) @ [(c, m)]\<rparr>] @ [newNode]
           in insertChars ns' m cs))"

definition addPattern ::
  "(jsstring \<Rightarrow> jsstring) \<Rightarrow> automaton \<Rightarrow> jsvalue \<Rightarrow> error + automaton" where
  "addPattern toLowerCase ac pattern =
     (if \<not> truthy pattern then Inr ac
      else case pattern of
        JString s \<Rightarrow>
          (let lowerPattern = toLowerCase s;
               (ns, n) = insertChars (nodes ac) root (codePoints lowerPattern);
               ns' = ns[n := (ns ! n)\<lparr>outputs := outputs (ns ! n) @ [lowerPattern]\<rparr>]
           in Inr \<lparr>nodes = ns', built = False\<rparr>)
      | _ \<Rightarrow> Inl TypeError)"

fun addPatterns ::
  "(jsstring \<Rightarrow> jsstring) \<Rightarrow> automaton \<Rightarrow> jsvalue list \<Rightarrow> error + automaton" where
  "addPatterns toLowerCase ac [] = Inr ac"
| "addPatterns toLowerCase ac (pattern # patterns) =
     (case addPattern toLowerCase ac pattern of
        Inl e \<Rightarrow> Inl e
      | Inr ac' \<Rightarrow> addPatterns toLowerCase ac' patterns)"

text \<open>
  \<open>while (node && !node.children.has(char)) node = node.fail\<close>, the loop that both
  \<open>build\<close> and \<open>search\<close> run.  On a store whose fail links form a cycle it does not
  return: that is the value \<open>None\<close>.
\<close>

partial_function (option) followFail ::
  "node list \<Rightarrow> nat option \<Rightarrow> jsstring \<Rightarrow> nat option option" where
  "followFail ns nd c =
     (case nd of
        None \<Rightarrow> Some None
      | Some k \<Rightarrow>
          if map_of (children (ns ! k)) c \<noteq> None then Some (Some k)
          else followFail ns (fail (ns ! k)) c)"

declare followFail.simps [code]

text \<open>The body of \<open>build\<close>'s loop over \<open>current.children\<close>.\<close>

fun linkChildren ::
  "node list \<Rightarrow> nat \<Rightarrow> (jsstring \<times> nat) list \<Rightarrow> nat list \<Rightarrow> (node list \<times> nat list) option" where
  "linkChildren ns current [] queue = Some (ns, queue)"
| "linkChildren ns current ((c, child) # rest) queue =
     (case followFail ns (fail (ns ! current)) c of
        None \<Rightarrow> None
      | Some f \<Rightarrow>
          (let target = (case f of
                           None \<Rightarrow> root
                         | Some k \<Rightarrow> (case map_of (children (ns ! k)) c of
                                        Some t \<Rightarrow> t
                                      | None \<Rightarrow> root));
               ns1 = ns[child := (ns ! child)\<lparr>fail := Some target\<rparr>];
               ns2 = ns1[child := (ns1 ! child)\<lparr>outputs := outputs (ns1 ! child) @ outputs (ns1 ! target)\<rparr>]
           in linkChildren ns2 current rest (queue @ [child])))"

text \<open>The breadth-first loop \<open>while (queue.length > 0)\<close>.\<close>

partial_function (option) bfs :: "node list \<Rightarrow> nat list \<Rightarrow> node list option" where
  "bfs ns queue =
     (case queue of
        [] \<Rightarrow> Some ns
      | current # rest \<Rightarrow>
          (case linkChildren ns current (children (ns ! current)) rest of
             None \<Rightarrow> None
           | Some (ns', queue') \<Rightarrow> bfs ns' queue'))"

declare bfs.simps [code]

definition build :: "automaton \<Rightarrow> automaton option" where
  "build ac =
     (if built ac then Some ac
      else
        (let kids = map snd (children (nodes ac ! root));
             ns1 = fold (\<lambda>child ns. ns[child := (ns ! child)\<lparr>fail := Some root\<rparr>]) kids (nodes ac)
         in case bfs ns1 kids of
              None \<Rightarrow> None
            | Some ns2 \<Rightarrow> Some \<lparr>nodes = ns2, built = True\<rparr>))"

record span =
  start :: int
  end' :: int

record raw_match = span +
  pattern :: jsstring

text \<open>
  The loop of \<open>search\<close> over the indices of the lowercased text: \<open>i\<close> is the index of
  the head of the remaining text, \<open>nd\<close> the current node.
\<close>

fun searchLoop ::
  "node list \<Rightarrow> jsstring \<Rightarrow> nat \<Rightarrow> nat \<Rightarrow> raw_match list \<Rightarrow> raw_match list option" where
  "searchLoop ns [] i nd results = Some results"
| "searchLoop ns (c # cs) i nd results =
     (case followFail ns (Some nd) [c] of
        None \<Rightarrow> None
      | Some None \<Rightarrow> searchLoop ns cs (i + 1) root results
      | Some (Some k) \<Rightarrow>
          (case map_of (children (ns ! k)) [c] of
             None \<Rightarrow> None
           | Some nd' \<Rightarrow>
               searchLoop ns cs (i + 1) nd'
                 (results @
                  map (\<lambda>p. \<lparr>start = int i - int (length p) + 1, end' = int i + 1, pattern = p\<rparr>)
                      (outputs (ns ! nd')))))"

definition search ::
  "(jsstring \<Rightarrow> jsstring) \<Rightarrow> automaton \<Rightarrow> jsstring \<Rightarrow> (raw_match list \<times> automaton) option" where
  "search toLowerCase ac text =
     (case (if \<not> built ac then build ac else Some ac) of
        None \<Rightarrow> None
      | Some ac' \<Rightarrow>
          (let lowerText = toLowerCase text
           in case searchLoop (nodes ac') lowerText 0 root [] of
                None \<Rightarrow> None
              | Some results \<Rightarrow> Some (results, ac')))"

section \<open>The term index\<close>

text \<open>
  The index is the matcher's read-only collaborator.  \<open>terms\<close> may be absent as a
  whole (\<open>this.index.terms?.get(termId)\<close>); a term's \<open>level\<close> may be unrecorded.
\<close>

record pattern_meta =
  isCaseSensitive :: bool
  originalCase :: "jsstring option"

record term_meta =
  level :: "jsstring option"

record term_index =
  getAllPatterns :: "jsstring list"
  getTermIdsForPattern :: "jsstring \<Rightarrow> jsstring list"
  getPatternMetadata :: "jsstring \<Rightarrow> pattern_meta option"
  terms :: "(jsstring \<Rightarrow> term_meta option) option"

section \<open>The term matcher\<close>

text \<open>
  \<open>LEVEL_HIERARCHY\<close> is an object literal, so \<open>LEVEL_HIERARCHY[key]\<close> also finds the
  properties that every object inherits from \<open>Object.prototype\<close>; each of them is an
  object of its own.  Any other key gives \<open>undefined\<close>.
\<close>

definition objectPrototypeKeys :: "jsstring list" where
  "objectPrototypeKeys =
     [js ''constructor'', js ''__defineGetter__'', js ''__defineSetter__'',
      js ''hasOwnProperty'', js ''__lookupGetter__'', js ''__lookupSetter__'',
      js ''isPrototypeOf'', js ''propertyIsEnumerable'', js ''toString'', js ''valueOf'',
      js ''__proto__'', js ''toLocaleString'']"

definition LEVEL_HIERARCHY :: "jsstring \<Rightarrow> jsvalue" where
  "LEVEL_HIERARCHY key =
     (if key = js ''premed'' then JNumber 0
      else if key = js ''medschool'' then JNumber 1
      else if key = js ''all'' then JNumber 2
      else if key \<in> set objectPrototypeKeys then JObject key
      else JUndefined)"

text \<open>The operator \<open>??\<close>.\<close>

definition nullish :: "jsvalue \<Rightarrow> jsvalue \<Rightarrow> jsvalue" where
  "nullish v d = (if v = JUndefined \<or> v = JNull then d else v)"

record matcher =
  index :: term_index
  automaton :: automaton
  initialized :: bool
  userLevel :: jsstring
  enableBetaFeatures :: bool

definition TermMatcher :: "term_index \<Rightarrow> matcher" where
  "TermMatcher idx =
     \<lparr>index = idx, automaton = AhoCorasick, initialized = False,
      userLevel = js ''medschool'', enableBetaFeatures = False\<rparr>"

text \<open>\<open>level || 'medschool'\<close>: \<open>None\<close> stands for \<open>null\<close> and \<open>undefined\<close>.\<close>

definition setUserLevel :: "matcher \<Rightarrow> jsstring option \<Rightarrow> matcher" where
  "setUserLevel m lvl =
     m\<lparr>userLevel := (case lvl of
                       None \<Rightarrow> js ''medschool''
                     | Some l \<Rightarrow> if l = [] then js ''medschool'' else l)\<rparr>"

definition setBetaFeatures :: "matcher \<Rightarrow> bool \<Rightarrow> matcher" where
  "setBetaFeatures m enabled = m\<lparr>enableBetaFeatures := enabled\<rparr>"

definition initialize :: "(jsstring \<Rightarrow> jsstring) \<Rightarrow> matcher \<Rightarrow> (error + matcher) option" where
  "initialize toLowerCase m =
     (if initialized m then Some (Inr m)
      else
        (let patterns = getAllPatterns (index m)
         in case addPatterns toLowerCase (automaton m) (map JString patterns) of
              Inl e \<Rightarrow> Some (Inl e)
            | Inr ac \<Rightarrow>
                (case build ac of
                   None \<Rightarrow> None
                 | Some ac' \<Rightarrow> Some (Inr (m\<lparr>automaton := ac', initialized := True\<rparr>)))))"

text \<open>
  The callback of \<open>termIds.filter\<close> in \<open>_filterByLevel\<close>.  \<open>BETA_TERM_LEVELS\<close> is
  imported from the constants module, whose export of it is not part of the sources
  at hand: it is the parameter \<open>BETA_TERM_LEVELS\<close>.
\<close>

definition keepTermId :: "jsstring list \<Rightarrow> matcher \<Rightarrow> jsstring \<Rightarrow> bool" where
  "keepTermId BETA_TERM_LEVELS m termId =
     (case (case terms (index m) of None \<Rightarrow> None | Some t \<Rightarrow> t termId) of
        None \<Rightarrow> True
      | Some termMeta \<Rightarrow>
          (let termLevel = (case level termMeta of
                              None \<Rightarrow> js ''medschool''
                            | Some l \<Rightarrow> if l = [] then js ''medschool'' else l)
           in if termLevel \<in> set BETA_TERM_LEVELS \<and> \<not> enableBetaFeatures m then False
              else
                (let effectiveLevel =
                       (if userLevel m = js ''all'' then js ''medschool'' else userLevel m);
                     userLevelValue = nullish (LEVEL_HIERARCHY effectiveLevel) (JNumber 1);
                     termLevelValue = nullish (LEVEL_HIERARCHY termLevel) (JNumber 1)
                 in if termLevelValue \<noteq> userLevelValue then False else True)))"

definition filterByLevel :: "jsstring list \<Rightarrow> matcher \<Rightarrow> jsstring list \<Rightarrow> jsstring list" where
  "filterByLevel BETA_TERM_LEVELS m termIds = filter (keepTermId BETA_TERM_LEVELS m) termIds"

definition isValidCaseMatch :: "term_index \<Rightarrow> jsstring \<Rightarrow> int \<Rightarrow> int \<Rightarrow> jsstring \<Rightarrow> bool" where
  "isValidCaseMatch idx text s e pat =
     (case getPatternMetadata idx pat of
        None \<Rightarrow> True
      | Some patternMeta \<Rightarrow>
          if \<not> isCaseSensitive patternMeta then True
          else (case originalCase patternMeta of
                  None \<Rightarrow> True
                | Some oc \<Rightarrow> if oc = [] then True else slice text s e = oc))"

definition isAlnum :: "code_unit \<Rightarrow> bool" where
  "isAlnum c = ((0x61 \<le> c \<and> c \<le> 0x7A) \<or> (0x41 \<le> c \<and> c \<le> 0x5A) \<or> (0x30 \<le> c \<and> c \<le> 0x39))"

text \<open>
  \<open>/[a-zA-Z0-9]/.test(char)\<close>.  The regular expression converts its argument to a
  string, so \<open>undefined\<close> is tested as the text \<open>undefined\<close>.
\<close>

definition isWordChar :: "jsstring option \<Rightarrow> bool" where
  "isWordChar char =
     list_ex isAlnum (case char of None \<Rightarrow> js ''undefined'' | Some s \<Rightarrow> s)"

definition isWordBoundaryMatch :: "jsstring \<Rightarrow> int \<Rightarrow> int \<Rightarrow> bool" where
  "isWordBoundaryMatch text s e =
     (if s > 0 \<and> isWordChar (charAt text (s - 1)) then False
      else if e < int (length text) \<and> isWordChar (charAt text e) then False
      else True)"

text \<open>
  The comparator handed to \<open>sort\<close>.  \<open>Array.prototype.sort\<close> is stable, and the
  comparator is a consistent one, so the sorted array is the one a stable insertion
  sort gives.
\<close>

definition compareMatches :: "'a span_scheme \<Rightarrow> 'a span_scheme \<Rightarrow> int" where
  "compareMatches a b =
     (if start a \<noteq> start b then start a - start b
      else (end' b - start b) - (end' a - start a))"

fun insertSorted :: "'a span_scheme \<Rightarrow> 'a span_scheme list \<Rightarrow> 'a span_scheme list" where
  "insertSorted x [] = [x]"
| "insertSorted x (y # ys) =
     (if compareMatches x y \<le> 0 then x # y # ys else y # insertSorted x ys)"

definition sortMatches :: "'a span_scheme list \<Rightarrow> 'a span_scheme list" where
  "sortMatches ms = foldr insertSorted ms []"

text \<open>The greedy loop of \<open>_removeOverlaps\<close> over the sorted matches.\<close>

fun keepFrom :: "int \<Rightarrow> 'a span_scheme list \<Rightarrow> 'a span_scheme list" where
  "keepFrom lastEnd [] = []"
| "keepFrom lastEnd (m # ms) =
     (if start m < lastEnd then keepFrom lastEnd ms
      else m # keepFrom (end' m) ms)"

definition removeOverlaps :: "'a span_scheme list \<Rightarrow> 'a span_scheme list" where
  "removeOverlaps matches =
     (if matches = [] then [] else keepFrom (- 1) (sortMatches matches))"

record valid_match = raw_match +
  filteredTermIds :: "jsstring list"

record term_match = span +
  termIds :: "jsstring list"

text \<open>The loop of \<open>findTerms\<close> over the raw matches; \<open>continue\<close> is the recursive call.\<close>

fun validMatches ::
  "jsstring list \<Rightarrow> matcher \<Rightarrow> jsstring \<Rightarrow> raw_match list \<Rightarrow> valid_match list" where
  "validMatches BETA_TERM_LEVELS m text [] = []"
| "validMatches BETA_TERM_LEVELS m text (r # rs) =
     (if pattern r \<in> set EXCLUDED_PATTERNS then validMatches BETA_TERM_LEVELS m text rs
      else if \<not> isWordBoundaryMatch text (start r) (end' r)
        then validMatches BETA_TERM_LEVELS m text rs
      else if \<not> isValidCaseMatch (index m) text (start r) (end' r) (pattern r)
        then validMatches BETA_TERM_LEVELS m text rs
      else
        (let tids = getTermIdsForPattern (index m) (pattern r)
         in if tids \<noteq> [] then
              (let filtered = filterByLevel BETA_TERM_LEVELS m tids
               in if filtered \<noteq> [] then
                    \<lparr>start = start r, end' = end' r, pattern = pattern r,
                     filteredTermIds = filtered\<rparr>
                    # validMatches BETA_TERM_LEVELS m text rs
                  else validMatches BETA_TERM_LEVELS m text rs)
            else validMatches BETA_TERM_LEVELS m text rs))"

text \<open>The conversion to the output format, the callback of the final \<open>map\<close>.\<close>

definition outputFormat :: "valid_match \<Rightarrow> term_match" where
  "outputFormat v = \<lparr>start = start v, end' = end' v, termIds = filteredTermIds v\<rparr>"

text \<open>
  \<open>findTerms\<close> returns the matches and the matcher as the call leaves it (the lazily
  initialised automaton); \<open>None\<close> is a call that does not return, \<open>Inl\<close> one that
  throws.
\<close>

definition findTerms ::
  "(jsstring \<Rightarrow> jsstring) \<Rightarrow> jsstring list \<Rightarrow> matcher \<Rightarrow> jsstring
     \<Rightarrow> (error + term_match list \<times> matcher) option" where
  "findTerms toLowerCase BETA_TERM_LEVELS m text =
     (case initialize toLowerCase m of
        None \<Rightarrow> None
      | Some (Inl e) \<Rightarrow> Some (Inl e)
      | Some (Inr m1) \<Rightarrow>
          if text = [] then Some (Inr ([], m1))
          else
            (case search toLowerCase (automaton m1) text of
               None \<Rightarrow> None
             | Some (rawMatches, ac) \<Rightarrow>
                 (let m2 = m1\<lparr>automaton := ac\<rparr>
                  in if rawMatches = [] then Some (Inr ([], m2))
                     else
                       (let nonOverlapping =
                              removeOverlaps (validMatches BETA_TERM_LEVELS m2 text rawMatches)
                        in Some (Inr (map outputFormat nonOverlapping, m2))))))"

text \<open>
  The array \<open>validMatches\<close> that \<open>findTerms\<close> has built when it reaches overlap
  resolution (empty where \<open>findTerms\<close> returns early), with the matcher as the call
  leaves it.
\<close>

definition acceptedMatches ::
  "(jsstring \<Rightarrow> jsstring) \<Rightarrow> jsstring list \<Rightarrow> matcher \<Rightarrow> jsstring
     \<Rightarrow> (error + valid_match list \<times> matcher) option" where
  "acceptedMatches toLowerCase BETA_TERM_LEVELS m text =
     (case initialize toLowerCase m of
        None \<Rightarrow> None
      | Some (Inl e) \<Rightarrow> Some (Inl e)
      | Some (Inr m1) \<Rightarrow>
          if text = [] then Some (Inr ([], m1))
          else
            (case search toLowerCase (automaton m1) text of
               None \<Rightarrow> None
             | Some (rawMatches, ac) \<Rightarrow>
                 (let m2 = m1\<lparr>automaton := ac\<rparr>
                  in Some (Inr (validMatches BETA_TERM_LEVELS m2 text rawMatches, m2)))))"

section \<open>Well-formed stores and reachable automata\<close>

text \<open>
  What holds of every store the automaton's operations produce: there is a root, of
  depth 0; a child was allocated after its parent, lies in the store and is one level
  deeper; a fail link leads to a node of the store that is strictly less deep.
\<close>

definition wfNodes :: "node list \<Rightarrow> bool" where
  "wfNodes ns \<longleftrightarrow>
     ns \<noteq> [] \<and> depth (ns ! root) = 0
     \<and> (\<forall>n<length ns. \<forall>(c, m)\<in>set (children (ns ! n)).
           n < m \<and> m < length ns \<and> depth (ns ! m) = Suc (depth (ns ! n)))
     \<and> (\<forall>n<length ns. \<forall>k. fail (ns ! n) = Some k \<longrightarrow>
           k < length ns \<and> depth (ns ! k) < depth (ns ! n))"

text \<open>Two stores with the same tree: the same nodes, children and depths.\<close>

definition sameTree :: "node list \<Rightarrow> node list \<Rightarrow> bool" where
  "sameTree ns ns' \<longleftrightarrow>
     length ns' = length ns
     \<and> (\<forall>n<length ns. children (ns' ! n) = children (ns ! n) \<and> depth (ns' ! n) = depth (ns ! n))"

text \<open>
  The automata a caller can hold: a new one, and what \<open>addPattern\<close> and \<open>build\<close>
  (which is also all that \<open>search\<close> does to the automaton) make of one.
\<close>

inductive reachable :: "(jsstring \<Rightarrow> jsstring) \<Rightarrow> automaton \<Rightarrow> bool"
  for toLowerCase :: "jsstring \<Rightarrow> jsstring" where
  reachable_new: "reachable toLowerCase AhoCorasick"
| reachable_addPattern:
    "reachable toLowerCase ac \<Longrightarrow> addPattern toLowerCase ac p = Inr ac'
       \<Longrightarrow> reachable toLowerCase ac'"
| reachable_build:
    "reachable toLowerCase ac \<Longrightarrow> build ac = Some ac' \<Longrightarrow> reachable toLowerCase ac'"

section \<open>Specification of the level and feature filter\<close>

text \<open>
  The filter as the specification words it: a term without metadata is kept; otherwise
  its level, the standard tier when none is recorded, must not be an opt-in level while
  the feature flag is off, and its tier must equal the tier of the effective caller
  level, which is the standard level for the caller setting \<open>all\<close>.
\<close>

definition termMetaOf :: "matcher \<Rightarrow> jsstring \<Rightarrow> term_meta option" where
  "termMetaOf m termId = (case terms (index m) of None \<Rightarrow> None | Some t \<Rightarrow> t termId)"

definition levelOrStandard :: "term_meta \<Rightarrow> jsstring" where
  "levelOrStandard meta =
     (case level meta of None \<Rightarrow> js ''medschool'' | Some l \<Rightarrow> if l = [] then js ''medschool'' else l)"

definition effectiveLevel :: "matcher \<Rightarrow> jsstring" where
  "effectiveLevel m = (if userLevel m = js ''all'' then js ''medschool'' else userLevel m)"

definition levelTier :: "jsstring \<Rightarrow> jsvalue" where
  "levelTier l = nullish (LEVEL_HIERARCHY l) (JNumber 1)"

definition keptBySpec :: "jsstring list \<Rightarrow> matcher \<Rightarrow> jsstring \<Rightarrow> bool" where
  "keptBySpec optInLevels m termId =
     (case termMetaOf m termId of
        None \<Rightarrow> True
      | Some meta \<Rightarrow>
          \<not> (levelOrStandard meta \<in> set optInLevels \<and> \<not> enableBetaFeatures m)
          \<and> levelTier (levelOrStandard meta) = levelTier (effectiveLevel m))"

section \<open>Sample data\<close>

definition levelIndex :: term_index where
  "levelIndex =
     \<lparr>getAllPatterns = [],
      getTermIdsForPattern = (\<lambda>p. []),
      getPatternMetadata = (\<lambda>p. None),
      terms = Some (\<lambda>t.
        if t = js ''basic'' then Some \<lparr>level = Some (js ''premed'')\<rparr>
        else if t = js ''standard'' then Some \<lparr>level = Some (js ''medschool'')\<rparr>
        else if t = js ''unrecorded'' then Some \<lparr>level = None\<rparr>
        else if t = js ''formula'' then Some \<lparr>level = Some (js ''lab'')\<rparr>
        else None)\<rparr>"

text \<open>The case-sensitive abbreviation of the unit tests and of the specification.\<close>

definition chfIndex :: term_index where
  "chfIndex =
     \<lparr>getAllPatterns = [js ''chf''],
      getTermIdsForPattern = (\<lambda>p. if p = js ''chf'' then [js ''heart-failure-001''] else []),
      getPatternMetadata = (\<lambda>p.
        if p = js ''chf'' then Some \<lparr>isCaseSensitive = True, originalCase = Some (js ''CHF'')\<rparr>
        else None),
      terms = None\<rparr>"

text \<open>The same pattern, marked case-sensitive with an empty required casing.\<close>

definition emptyCaseIndex :: term_index where
  "emptyCaseIndex =
     \<lparr>getAllPatterns = [js ''chf''],
      getTermIdsForPattern = (\<lambda>p. if p = js ''chf'' then [js ''heart-failure-001''] else []),
      getPatternMetadata = (\<lambda>p.
        if p = js ''chf'' then Some \<lparr>isCaseSensitive = True, originalCase = Some []\<rparr>
        else None),
      terms = None\<rparr>"

text \<open>An excluded pattern and an ordinary one, both mapped to terms.\<close>

definition asIndex :: term_index where
  "asIndex =
     \<lparr>getAllPatterns = [js ''as'', js ''severe''],
      getTermIdsForPattern = (\<lambda>p.
        if p = js ''as'' then [js ''aortic-stenosis'']
        else if p = js ''severe'' then [js ''severity''] else []),
      getPatternMetadata = (\<lambda>p. None),
      terms = None\<rparr>"

text \<open>
  Two patterns that start at the same place, as in the unit test on overlaps, and a
  third one that overlaps neither.
\<close>

definition heartIndex :: term_index where
  "heartIndex =
     \<lparr>getAllPatterns = [js ''heart failure'', js ''heart'', js ''hypertension''],
      getTermIdsForPattern = (\<lambda>p.
        if p = js ''heart'' then [js ''heart'']
        else if p = js ''heart failure'' then [js ''heart-failure'']
        else if p = js ''hypertension'' then [js ''hypertension-001''] else []),
      getPatternMetadata = (\<lambda>p. None),
      terms = None\<rparr>"

text \<open>Two patterns that can stand side by side: one ends where the other starts.\<close>

definition adjacentIndex :: term_index where
  "adjacentIndex =
     \<lparr>getAllPatterns = [js ''a-'', js ''+b''],
      getTermIdsForPattern = (\<lambda>p.
        if p = js ''a-'' then [js ''first''] else if p = js ''+b'' then [js ''second''] else []),
      getPatternMetadata = (\<lambda>p. None),
      terms = None\<rparr>"


section \<open>Case-sensitivity classification\<close>

text \<open>
  \<open>String.prototype.trim\<close> removes the white space and the line terminators of
  ECMAScript from both ends.
\<close>

definition isWhiteSpace :: "code_unit \<Rightarrow> bool" where
  "isWhiteSpace c =
     ((0x09 \<le> c \<and> c \<le> 0x0D) \<or> c = 0x20 \<or> c = 0xA0 \<or> c = 0x1680
      \<or> (0x2000 \<le> c \<and> c \<le> 0x200A) \<or> c = 0x2028 \<or> c = 0x2029 \<or> c = 0x202F
      \<or> c = 0x205F \<or> c = 0x3000 \<or> c = 0xFEFF)"

definition trim :: "jsstring \<Rightarrow> jsstring" where
  "trim s = rev (dropWhile isWhiteSpace (rev (dropWhile isWhiteSpace s)))"

definition isAsciiUpper :: "code_unit \<Rightarrow> bool" where
  "isAsciiUpper c = (0x41 \<le> c \<and> c \<le> 0x5A)"

definition isAsciiLower :: "code_unit \<Rightarrow> bool" where
  "isAsciiLower c = (0x61 \<le> c \<and> c \<le> 0x7A)"

definition commonWords :: "jsstring list" where
  "commonWords =
     [js ''the'', js ''and'', js ''but'', js ''for'', js ''not'', js ''you'', js ''all'',
      js ''can'', js ''had'', js ''her'', js ''was'', js ''one'', js ''our'', js ''out'',
      js ''are'', js ''has'', js ''his'', js ''how'', js ''its'', js ''may'', js ''new'',
      js ''now'', js ''old'', js ''see'', js ''way'', js ''who'', js ''boy'', js ''did'',
      js ''get'', js ''let'', js ''put'', js ''say'', js ''she'', js ''too'', js ''use'',
      js ''red'', js ''flu'', js ''arm'', js ''leg'', js ''ear'', js ''eye'', js ''jaw'',
      js ''lip'', js ''rib'', js ''gum'', js ''fat'', js ''gut'', js ''hip'', js ''toe'',
      js ''wet'', js ''dry'', js ''hot'', js ''raw'', js ''old'']"

text \<open>
  \<open>shouldBeCaseSensitive(pattern, original, isFromAbbr)\<close> of the service worker.
  \<open>/[A-Z]/.test(s)\<close> is \<open>list_ex isAsciiUpper s\<close>, \<open>/^[a-z]+$/.test(s)\<close> is
  \<open>s \<noteq> [] \<and> list_all isAsciiLower s\<close>, \<open>s[0]\<close> is \<open>take 1 s\<close> where \<open>s\<close> is not empty
  (which the first test secures before \<open>s[0]\<close> is read) and \<open>s.slice(1)\<close> is
  \<open>drop 1 s\<close>.
\<close>

definition shouldBeCaseSensitive ::
  "(jsstring \<Rightarrow> jsstring) \<Rightarrow> (jsstring \<Rightarrow> jsstring) \<Rightarrow> jsstring \<Rightarrow> jsstring \<Rightarrow> bool
     \<Rightarrow> pattern_meta" where
  "shouldBeCaseSensitive toLowerCase toUpperCase pat original isFromAbbr =
     (let normalized = trim (toLowerCase pat);
          originalStripped = trim original
      in if normalized \<in> set EXCLUDED_PATTERNS
           then \<lparr>isCaseSensitive = False, originalCase = None\<rparr>
         else if isFromAbbr \<and> length normalized \<le> 6
           then \<lparr>isCaseSensitive = True, originalCase = Some (toUpperCase originalStripped)\<rparr>
         else if length normalized \<le> 4 \<and> originalStripped = toUpperCase originalStripped
           then \<lparr>isCaseSensitive = True, originalCase = Some originalStripped\<rparr>
         else if length normalized \<le> 6 \<and> list_ex isAsciiUpper originalStripped
                 \<and> \<not> (take 1 originalStripped = toUpperCase (take 1 originalStripped)
                        \<and> drop 1 originalStripped = toLowerCase (drop 1 originalStripped))
           then \<lparr>isCaseSensitive = True, originalCase = Some originalStripped\<rparr>
         else if length normalized \<ge> 2 \<and> length normalized \<le> 4
                 \<and> normalized \<noteq> [] \<and> list_all isAsciiLower normalized
                 \<and> normalized \<notin> set commonWords
           then \<lparr>isCaseSensitive = True, originalCase = Some (toUpperCase normalized)\<rparr>
         else \<lparr>isCaseSensitive = False, originalCase = None\<rparr>)"

text \<open>
  The rule cascade as the specification states it, on the normalized pattern \<open>n\<close>,
  its original form \<open>orig\<close> and the abbreviation flag.  A string is entirely
  uppercase when uppercasing leaves it as it is; it is in sentence case when that
  holds of its first letter and lowercasing leaves the rest as it is; letters are
  the ASCII letters.
\<close>

definition entirelyUppercase :: "(jsstring \<Rightarrow> jsstring) \<Rightarrow> jsstring \<Rightarrow> bool" where
  "entirelyUppercase toUpperCase s \<longleftrightarrow> toUpperCase s = s"

definition containsUppercaseLetter :: "jsstring \<Rightarrow> bool" where
  "containsUppercaseLetter s \<longleftrightarrow> (\<exists>c\<in>set s. 0x41 \<le> c \<and> c \<le> 0x5A)"

definition sentenceCase ::
  "(jsstring \<Rightarrow> jsstring) \<Rightarrow> (jsstring \<Rightarrow> jsstring) \<Rightarrow> jsstring \<Rightarrow> bool" where
  "sentenceCase toLowerCase toUpperCase s \<longleftrightarrow>
     s \<noteq> [] \<and> toUpperCase [hd s] = [hd s] \<and> toLowerCase (tl s) = tl s"

definition onlyLowercaseLetters :: "jsstring \<Rightarrow> bool" where
  "onlyLowercaseLetters s \<longleftrightarrow> s \<noteq> [] \<and> (\<forall>c\<in>set s. 0x61 \<le> c \<and> c \<le> 0x7A)"

definition caseSensitive :: "jsstring \<Rightarrow> pattern_meta" where
  "caseSensitive required = \<lparr>isCaseSensitive = True, originalCase = Some required\<rparr>"

definition notCaseSensitive :: pattern_meta where
  "notCaseSensitive = \<lparr>isCaseSensitive = False, originalCase = None\<rparr>"

definition classifySpec ::
  "(jsstring \<Rightarrow> jsstring) \<Rightarrow> (jsstring \<Rightarrow> jsstring) \<Rightarrow> jsstring \<Rightarrow> jsstring \<Rightarrow> bool
     \<Rightarrow> pattern_meta" where
  "classifySpec toLowerCase toUpperCase n orig fromAbbreviation =
     (if n \<in> set EXCLUDED_PATTERNS then notCaseSensitive
      else if fromAbbreviation \<and> length n \<le> 6 then caseSensitive (toUpperCase orig)
      else if length n \<le> 4 \<and> entirelyUppercase toUpperCase orig then caseSensitive orig
      else if length n \<le> 6 \<and> containsUppercaseLetter orig
              \<and> \<not> sentenceCase toLowerCase toUpperCase orig then caseSensitive orig
      else if 2 \<le> length n \<and> length n \<le> 4 \<and> onlyLowercaseLetters n
              \<and> n \<notin> set commonWords then caseSensitive (toUpperCase n)
      else notCaseSensitive)"

section \<open>Auxiliary notions for the proofs\<close>

text \<open>
  Names for the pieces of \<open>build\<close>: the node that becomes \<open>child.fail\<close> once the
  loop over the fail links has returned \<open>f\<close>, the two assignments to \<open>child\<close>, and the
  first loop, which points the children of the root at the root.
\<close>

definition failTarget :: "node list \<Rightarrow> nat option \<Rightarrow> jsstring \<Rightarrow> nat" where
  "failTarget ns f c =
     (case f of None \<Rightarrow> root
      | Some k \<Rightarrow> (case map_of (children (ns ! k)) c of Some t \<Rightarrow> t | None \<Rightarrow> root))"

definition linkChild :: "node list \<Rightarrow> nat \<Rightarrow> nat \<Rightarrow> node list" where
  "linkChild ns child target =
     (let ns1 = ns[child := (ns ! child)\<lparr>fail := Some target\<rparr>]
      in ns1[child := (ns1 ! child)\<lparr>outputs := outputs (ns1 ! child) @ outputs (ns1 ! target)\<rparr>])"

definition initFail :: "nat list \<Rightarrow> node list \<Rightarrow> node list" where
  "initFail kids ns = fold (\<lambda>child ns. ns[child := (ns ! child)\<lparr>fail := Some root\<rparr>]) kids ns"

text \<open>No node reports the empty string.\<close>

definition outputsNonEmpty :: "node list \<Rightarrow> bool" where
  "outputsNonEmpty ns \<longleftrightarrow> (\<forall>n<length ns. [] \<notin> set (outputs (ns ! n)))"

text \<open>What is known of an accepted match.\<close>

definition acceptedHit :: "jsstring list \<Rightarrow> matcher \<Rightarrow> jsstring \<Rightarrow> valid_match \<Rightarrow> bool" where
  "acceptedHit B m text v \<longleftrightarrow>
     pattern v \<notin> set EXCLUDED_PATTERNS
     \<and> isWordBoundaryMatch text (start v) (end' v)
     \<and> isValidCaseMatch (index m) text (start v) (end' v) (pattern v)
     \<and> filteredTermIds v = filterByLevel B m (getTermIdsForPattern (index m) (pattern v))
     \<and> filteredTermIds v \<noteq> []
     \<and> start v = end' v - int (length (pattern v))
     \<and> (\<exists>n<length (nodes (automaton m)). pattern v \<in> set (outputs (nodes (automaton m) ! n)))"

text \<open>An automaton with the patterns \<open>he\<close> and \<open>she\<close>, not yet built.\<close>

definition heAutomaton :: automaton where
  "heAutomaton =
     (case addPatterns asciiLower AhoCorasick [JString (js ''he''), JString (js ''she'')] of
        Inr ac \<Rightarrow> ac
      | Inl e \<Rightarrow> AhoCorasick)"

section \<open>Stores stay well formed, loops return\<close>

lemma sameTree_refl: "sameTree ns ns" by (simp add: sameTree_def)
lemma sameTree_trans: "sameTree a b \<Longrightarrow> sameTree b c \<Longrightarrow> sameTree a c"
  by (simp add: sameTree_def)

lemma wfNodes_childD:
  "wfNodes ns \<Longrightarrow> n < length ns \<Longrightarrow> (c, m) \<in> set (children (ns ! n))
     \<Longrightarrow> n < m \<and> m < length ns \<and> depth (ns ! m) = Suc (depth (ns ! n))"
  unfolding wfNodes_def by blast

lemma wfNodes_failD:
  "wfNodes ns \<Longrightarrow> n < length ns \<Longrightarrow> fail (ns ! n) = Some k
     \<Longrightarrow> k < length ns \<and> depth (ns ! k) < depth (ns ! n)"
  unfolding wfNodes_def by blast

lemma wfNodes_root: "wfNodes ns \<Longrightarrow> 0 < length ns \<and> depth (ns ! 0) = 0"
  unfolding wfNodes_def by simp

lemma followFail_None: "followFail ns None c = Some None"
  by (subst followFail.simps) simp

lemma followFail_Some:
  "followFail ns (Some k) c =
     (if map_of (children (ns ! k)) c \<noteq> None then Some (Some k)
      else followFail ns (fail (ns ! k)) c)"
  by (subst followFail.simps) simp

lemma followFail_returns:
  assumes "wfNodes ns" and "k < length ns"
  shows "\<exists>r. followFail ns (Some k) c = Some r
           \<and> (\<forall>j. r = Some j \<longrightarrow> j < length ns \<and> map_of (children (ns ! j)) c \<noteq> None
                  \<and> depth (ns ! j) \<le> depth (ns ! k))"
  using assms(2)
proof (induction "depth (ns ! k)" arbitrary: k rule: less_induct)
  case less
  show ?case
  proof (cases "map_of (children (ns ! k)) c \<noteq> None")
    case True
    then show ?thesis using less.prems by (simp add: followFail_Some)
  next
    case False
    show ?thesis
    proof (cases "fail (ns ! k)")
      case None
      with False show ?thesis by (simp add: followFail_Some followFail_None)
    next
      case (Some f)
      from wfNodes_failD [OF assms(1) less.prems Some]
      have f: "f < length ns" "depth (ns ! f) < depth (ns ! k)" by simp_all
      from less.hyps [OF f(2) f(1)] obtain r where
        r: "followFail ns (Some f) c = Some r"
           "\<forall>j. r = Some j \<longrightarrow> j < length ns \<and> map_of (children (ns ! j)) c \<noteq> None
                  \<and> depth (ns ! j) \<le> depth (ns ! f)" by blast
      with False Some f show ?thesis by (auto simp add: followFail_Some)
    qed
  qed
qed

lemma nth_update_any: "(xs[i := x]) ! j = (if i = j \<and> i < length xs then x else xs ! j)"
  by (cases "i < length xs") (auto simp add: list_update_beyond)

text \<open>Updating the fail link or the outputs of a node keeps the tree.\<close>

lemma sameTree_update:
  assumes "children nd = children (ns ! i)" "depth nd = depth (ns ! i)"
  shows "sameTree ns (ns[i := nd])"
  using assms by (simp add: sameTree_def nth_update_any)

lemma wfNodes_sameTree:
  assumes wf: "wfNodes ns" and st: "sameTree ns ns'"
    and fl: "\<And>n k. n < length ns \<Longrightarrow> fail (ns' ! n) = Some k
               \<Longrightarrow> k < length ns \<and> depth (ns ! k) < depth (ns ! n)"
  shows "wfNodes ns'"
proof -
  have len: "length ns' = length ns"
    and same: "\<And>n. n < length ns \<Longrightarrow> children (ns' ! n) = children (ns ! n) \<and> depth (ns' ! n) = depth (ns ! n)"
    using st by (simp_all add: sameTree_def)
  have r: "0 < length ns" "depth (ns ! 0) = 0" using wfNodes_root [OF wf] by simp_all
  have 1: "ns' \<noteq> []" using len r by auto
  have 2: "depth (ns' ! 0) = 0" using same [OF r(1)] r(2) by simp
  have 3: "n < m \<and> m < length ns' \<and> depth (ns' ! m) = Suc (depth (ns' ! n))"
    if "n < length ns'" "(c, m) \<in> set (children (ns' ! n))" for n c m
  proof -
    have n: "n < length ns" using that len by simp
    then have "(c, m) \<in> set (children (ns ! n))" using that same by simp
    from wfNodes_childD [OF wf n this] show ?thesis using same len n by simp
  qed
  have 4: "k < length ns' \<and> depth (ns' ! k) < depth (ns' ! n)"
    if "n < length ns'" "fail (ns' ! n) = Some k" for n k
  proof -
    have n: "n < length ns" using that len by simp
    from fl [OF n that(2)] show ?thesis using same len n by simp
  qed
  show ?thesis unfolding wfNodes_def using 1 2 3 4 by blast
qed

lemma wfNodes_set_outputs:
  assumes "wfNodes ns"
  shows "wfNodes (ns[i := (ns ! i)\<lparr>outputs := os\<rparr>])"
proof (rule wfNodes_sameTree [OF assms sameTree_update])
  fix n k assume "n < length ns" "fail (ns[i := (ns ! i)\<lparr>outputs := os\<rparr>] ! n) = Some k"
  then have "fail (ns ! n) = Some k" by (simp add: nth_update_any split: if_splits)
  from wfNodes_failD [OF assms \<open>n < length ns\<close> this]
  show "k < length ns \<and> depth (ns ! k) < depth (ns ! n)" .
qed simp_all

lemma wfNodes_set_fail:
  assumes "wfNodes ns" "t < length ns" "depth (ns ! t) < depth (ns ! i)"
  shows "wfNodes (ns[i := (ns ! i)\<lparr>fail := Some t\<rparr>])"
proof (rule wfNodes_sameTree [OF assms(1) sameTree_update])
  fix n k assume n: "n < length ns" and f: "fail (ns[i := (ns ! i)\<lparr>fail := Some t\<rparr>] ! n) = Some k"
  show "k < length ns \<and> depth (ns ! k) < depth (ns ! n)"
  proof (cases "i = n")
    case True
    then have "k = t" using f n by simp
    then show ?thesis using assms True by simp
  next
    case False
    then have "fail (ns ! n) = Some k" using f by simp
    from wfNodes_failD [OF assms(1) n this] show ?thesis .
  qed
qed simp_all


lemma linkChildren_Cons:
  "linkChildren ns current ((c, child) # rest) queue =
     (case followFail ns (fail (ns ! current)) c of
        None \<Rightarrow> None
      | Some f \<Rightarrow> linkChildren (linkChild ns child (failTarget ns f c)) current rest (queue @ [child]))"
  by (simp add: linkChild_def failTarget_def Let_def split: option.split)

declare linkChildren.simps(2) [simp del]

lemma followFail_fail_returns:
  assumes wf: "wfNodes ns" and cur: "current < length ns"
  shows "\<exists>f. followFail ns (fail (ns ! current)) c = Some f
           \<and> failTarget ns f c < length ns
           \<and> depth (ns ! failTarget ns f c) \<le> depth (ns ! current)"
proof (cases "fail (ns ! current)")
  case None
  then show ?thesis using wfNodes_root [OF wf] by (simp add: followFail_None failTarget_def)
next
  case (Some k)
  from wfNodes_failD [OF wf cur Some] have k: "k < length ns" "depth (ns ! k) < depth (ns ! current)"
    by simp_all
  from followFail_returns [OF wf k(1), of c] obtain r where
    r: "followFail ns (Some k) c = Some r"
       "\<forall>j. r = Some j \<longrightarrow> j < length ns \<and> map_of (children (ns ! j)) c \<noteq> None
                  \<and> depth (ns ! j) \<le> depth (ns ! k)" by blast
  show ?thesis
  proof (cases r)
    case None
    then show ?thesis using r Some wfNodes_root [OF wf] by (simp add: failTarget_def)
  next
    case (Some j)
    with r(2) obtain t where j: "j < length ns" "map_of (children (ns ! j)) c = Some t"
      "depth (ns ! j) \<le> depth (ns ! k)" by auto
    from wfNodes_childD [OF wf j(1) map_of_SomeD [OF j(2)]]
    have "t < length ns" "depth (ns ! t) = Suc (depth (ns ! j))" by simp_all
    then show ?thesis using r(1) Some \<open>fail (ns ! current) = Some k\<close> j k
      by (simp add: failTarget_def)
  qed
qed

lemma linkChild_wf:
  assumes wf: "wfNodes ns" and t: "t < length ns" "depth (ns ! t) < depth (ns ! child)"
  shows "wfNodes (linkChild ns child t)" "sameTree ns (linkChild ns child t)"
proof -
  let ?ns1 = "ns[child := (ns ! child)\<lparr>fail := Some t\<rparr>]"
  have 1: "wfNodes ?ns1" by (rule wfNodes_set_fail [OF wf t])
  have s1: "sameTree ns ?ns1" by (rule sameTree_update) simp_all
  show "wfNodes (linkChild ns child t)"
    unfolding linkChild_def Let_def by (rule wfNodes_set_outputs [OF 1])
  have "sameTree ?ns1 (linkChild ns child t)"
    unfolding linkChild_def Let_def by (rule sameTree_update) simp_all
  with s1 show "sameTree ns (linkChild ns child t)" by (rule sameTree_trans)
qed

lemma sameTree_depth: "sameTree ns ns' \<Longrightarrow> n < length ns \<Longrightarrow> depth (ns' ! n) = depth (ns ! n)"
  by (simp add: sameTree_def)

lemma sameTree_children: "sameTree ns ns' \<Longrightarrow> n < length ns \<Longrightarrow> children (ns' ! n) = children (ns ! n)"
  by (simp add: sameTree_def)

lemma sameTree_length: "sameTree ns ns' \<Longrightarrow> length ns' = length ns"
  by (simp add: sameTree_def)

lemma linkChildren_invariant:
  assumes wf: "wfNodes ns" and cur: "current < length ns"
    and kids: "\<forall>(c, child)\<in>set kids. child < length ns \<and> depth (ns ! child) = Suc (depth (ns ! current))"
    and P: "P ns kids"
    and step: "\<And>ns c child rest f.
       \<lbrakk>wfNodes ns; current < length ns; P ns ((c, child) # rest); child < length ns;
        depth (ns ! child) = Suc (depth (ns ! current));
        followFail ns (fail (ns ! current)) c = Some f;
        failTarget ns f c < length ns;
        depth (ns ! failTarget ns f c) \<le> depth (ns ! current)\<rbrakk>
       \<Longrightarrow> P (linkChild ns child (failTarget ns f c)) rest"
  shows "\<exists>ns'. linkChildren ns current kids queue = Some (ns', queue @ map snd kids)
           \<and> wfNodes ns' \<and> sameTree ns ns' \<and> P ns' []"
  using wf cur kids P
proof (induction kids arbitrary: ns queue)
  case Nil
  then show ?case by (simp add: sameTree_refl)
next
  case (Cons kid rest)
  obtain c child where kid: "kid = (c, child)" by (cases kid)
  from Cons.prems(3) kid have ch: "child < length ns" "depth (ns ! child) = Suc (depth (ns ! current))"
    by simp_all
  from followFail_fail_returns [OF Cons.prems(1,2), of c] obtain f where
    f: "followFail ns (fail (ns ! current)) c = Some f" "failTarget ns f c < length ns"
       "depth (ns ! failTarget ns f c) \<le> depth (ns ! current)" by blast
  let ?ns2 = "linkChild ns child (failTarget ns f c)"
  have lt: "depth (ns ! failTarget ns f c) < depth (ns ! child)" using f(3) ch(2) by simp
  have wf2: "wfNodes ?ns2" and st2: "sameTree ns ?ns2"
    using linkChild_wf [OF Cons.prems(1) f(2) lt] by simp_all
  have len2: "length ?ns2 = length ns" using st2 by (rule sameTree_length)
  have kids2: "\<forall>(c, child)\<in>set rest. child < length ?ns2 \<and> depth (?ns2 ! child) = Suc (depth (?ns2 ! current))"
    using Cons.prems(2,3) len2 sameTree_depth [OF st2] by auto
  have P2: "P ?ns2 rest"
    using step [OF Cons.prems(1,2) Cons.prems(4) [unfolded kid] ch f] .
  from Cons.IH [OF wf2 _ kids2 P2, of "queue @ [child]"] Cons.prems(2) len2
  obtain ns' where r: "linkChildren ?ns2 current rest (queue @ [child]) = Some (ns', (queue @ [child]) @ map snd rest)"
     "wfNodes ns'" "sameTree ?ns2 ns'" "P ns' []" by auto
  show ?case
    using r f(1) sameTree_trans [OF st2 r(3)] by (simp add: kid linkChildren_Cons)
qed

lemma bfs_Nil: "bfs ns [] = Some ns"
  by (subst bfs.simps) simp

lemma bfs_Cons:
  "bfs ns (current # rest) =
     (case linkChildren ns current (children (ns ! current)) rest of
        None \<Rightarrow> None
      | Some (ns', queue') \<Rightarrow> bfs ns' queue')"
  by (subst bfs.simps) simp

lemma bfs_invariant:
  assumes wf: "wfNodes ns" and q: "\<forall>x\<in>set queue. x < length ns" and I: "I ns queue"
    and step: "\<And>ns cur rest ns'.
       \<lbrakk>wfNodes ns; cur < length ns; \<forall>x\<in>set rest. x < length ns; I ns (cur # rest);
        linkChildren ns cur (children (ns ! cur)) rest
          = Some (ns', rest @ map snd (children (ns ! cur)));
        wfNodes ns'; sameTree ns ns'\<rbrakk>
       \<Longrightarrow> I ns' (rest @ map snd (children (ns ! cur)))"
  shows "\<exists>r. bfs ns queue = Some r \<and> wfNodes r \<and> sameTree ns r \<and> I r []"
proof -
  define N where "N = length ns"
  define R where "R = inv_image (mult less_than) (\<lambda>q. mset (map (\<lambda>i. N - i) q))"
  have wfR: "wf R" unfolding R_def by (intro wf_inv_image wf_mult wf_less_than)
  have "\<forall>ns. length ns = N \<longrightarrow> wfNodes ns \<longrightarrow> (\<forall>x\<in>set queue. x < N) \<longrightarrow> I ns queue
          \<longrightarrow> (\<exists>r. bfs ns queue = Some r \<and> wfNodes r \<and> sameTree ns r \<and> I r [])"
  proof (induction queue rule: wf_induct_rule [OF wfR])
    case (1 queue)
    show ?case
    proof (intro allI impI)
      fix ns assume len: "length ns = N" and wf: "wfNodes ns"
        and q: "\<forall>x\<in>set queue. x < N" and I: "I ns queue"
      show "\<exists>r. bfs ns queue = Some r \<and> wfNodes r \<and> sameTree ns r \<and> I r []"
      proof (cases queue)
        case Nil
        then show ?thesis using wf I by (simp add: bfs_Nil sameTree_refl)
      next
        case (Cons cur rest)
        have cur: "cur < length ns" and rest: "\<forall>x\<in>set rest. x < length ns"
          using q Cons len by simp_all
        let ?kids = "children (ns ! cur)"
        have kids: "\<forall>(c, child)\<in>set ?kids. child < length ns \<and> depth (ns ! child) = Suc (depth (ns ! cur))"
          using wfNodes_childD [OF wf cur] by auto
        from linkChildren_invariant [where P = "\<lambda>_ _. True", OF wf cur kids, of rest]
        obtain ns' where l: "linkChildren ns cur ?kids rest = Some (ns', rest @ map snd ?kids)"
          "wfNodes ns'" "sameTree ns ns'" by auto
        have I': "I ns' (rest @ map snd ?kids)"
          using step [OF wf cur rest I [unfolded Cons] l] .
        have len': "length ns' = N" using sameTree_length [OF l(3)] len by simp
        have q': "\<forall>x\<in>set (rest @ map snd ?kids). x < N"
          using rest len wfNodes_childD [OF wf cur] by auto
        have kb: "cur < m \<and> m < N" if "(c, m) \<in> set ?kids" for c m
          using wfNodes_childD [OF wf cur that] len by simp
        have "\<forall>k\<in>#mset (map (\<lambda>i. N - i) (map snd ?kids)). \<exists>j\<in>#{#N - cur#}. (k, j) \<in> less_than"
          using kb by (fastforce intro: diff_less_mono2)
        from one_step_implies_mult [OF _ this, of "mset (map (\<lambda>i. N - i) rest)"]
        have "(rest @ map snd ?kids, queue) \<in> R"
          unfolding R_def Cons by (simp add: multiset.map_comp comp_def)
        from 1 [OF this] len' l(2) q' I'
        obtain r where r: "bfs ns' (rest @ map snd ?kids) = Some r" "wfNodes r" "sameTree ns' r" "I r []"
          by blast
        show ?thesis
          using r l sameTree_trans [OF l(3) r(3)] by (simp add: Cons bfs_Cons)
      qed
    qed
  qed
  then show ?thesis using wf q I N_def by blast
qed

lemma initFail_Nil: "initFail [] ns = ns" by (simp add: initFail_def)
lemma initFail_Cons: "initFail (k # ks) ns = initFail ks (ns[k := (ns ! k)\<lparr>fail := Some root\<rparr>])"
  by (simp add: initFail_def)

lemma initFail_wf:
  assumes "wfNodes ns" "\<forall>k\<in>set kids. 0 < depth (ns ! k)"
  shows "wfNodes (initFail kids ns) \<and> sameTree ns (initFail kids ns)"
  using assms
proof (induction kids arbitrary: ns)
  case Nil
  then show ?case by (simp add: initFail_Nil sameTree_refl)
next
  case (Cons k ks)
  let ?ns1 = "ns[k := (ns ! k)\<lparr>fail := Some root\<rparr>]"
  have r: "0 < length ns" "depth (ns ! 0) = 0" using wfNodes_root [OF Cons.prems(1)] by simp_all
  have wf1: "wfNodes ?ns1"
    by (rule wfNodes_set_fail [OF Cons.prems(1) r(1)]) (use Cons.prems(2) r(2) in simp)
  have st1: "sameTree ns ?ns1" by (rule sameTree_update) simp_all
  have "\<forall>j\<in>set ks. 0 < depth (?ns1 ! j)"
    using Cons.prems(2) by (simp add: nth_update_any)
  from Cons.IH [OF wf1 this] show ?case
    using sameTree_trans [OF st1] by (simp add: initFail_Cons)
qed

lemma build_unfold:
  "build ac =
     (if built ac then Some ac
      else case bfs (initFail (map snd (children (nodes ac ! root))) (nodes ac))
                    (map snd (children (nodes ac ! root))) of
             None \<Rightarrow> None
           | Some ns2 \<Rightarrow> Some \<lparr>nodes = ns2, built = True\<rparr>)"
  by (simp add: build_def initFail_def Let_def)

lemma build_returns:
  assumes wf: "wfNodes (nodes ac)"
  shows "\<exists>ac'. build ac = Some ac' \<and> wfNodes (nodes ac') \<and> sameTree (nodes ac) (nodes ac')
           \<and> built ac'"
proof (cases "built ac")
  case True
  then show ?thesis using wf by (simp add: build_unfold sameTree_refl)
next
  case False
  let ?kids = "map snd (children (nodes ac ! root))"
  have r: "0 < length (nodes ac)" using wfNodes_root [OF wf] by simp
  have kd: "k < length (nodes ac) \<and> 0 < depth (nodes ac ! k)" if "k \<in> set ?kids" for k
    using wfNodes_childD [OF wf r] that by auto
  then have "\<forall>k\<in>set ?kids. 0 < depth (nodes ac ! k)" by blast
  from initFail_wf [OF wf this]
  have wf1: "wfNodes (initFail ?kids (nodes ac))" and st1: "sameTree (nodes ac) (initFail ?kids (nodes ac))"
    by simp_all
  have q: "\<forall>x\<in>set ?kids. x < length (initFail ?kids (nodes ac))"
    using kd sameTree_length [OF st1] by simp
  from bfs_invariant [where I = "\<lambda>_ _. True", OF wf1 q]
  obtain r where "bfs (initFail ?kids (nodes ac)) ?kids = Some r" "wfNodes r"
    "sameTree (initFail ?kids (nodes ac)) r" by auto
  then show ?thesis using False sameTree_trans [OF st1] by (simp add: build_unfold)
qed

text \<open>Insertion\<close>

lemma wfNodes_add_child:
  assumes wf: "wfNodes ns" and n: "n < length ns"
  shows "wfNodes (ns[n := (ns ! n)\<lparr>children := children (ns ! n) @ [(c, length ns)]\<rparr>]
                  @ [AhoCorasickNode\<lparr>depth := depth (ns ! n) + 1\<rparr>])"
    (is "wfNodes ?ns'")
proof -
  have r: "0 < length ns" "depth (ns ! 0) = 0" using wfNodes_root [OF wf] by simp_all
  have len: "length ?ns' = Suc (length ns)" by simp
  have old: "depth (?ns' ! x) = depth (ns ! x)" "fail (?ns' ! x) = fail (ns ! x)"
    "outputs (?ns' ! x) = outputs (ns ! x)"
    "children (?ns' ! x) = (if x = n then children (ns ! n) @ [(c, length ns)] else children (ns ! x))"
    if "x < length ns" for x
    using that by (simp_all add: nth_append nth_update_any)
  have new: "?ns' ! length ns = AhoCorasickNode\<lparr>depth := depth (ns ! n) + 1\<rparr>"
    by (simp add: nth_append)
  have 1: "?ns' \<noteq> []" by simp
  have 2: "depth (?ns' ! 0) = 0" using old(1) [OF r(1)] r(2) by simp
  have 3: "x < m \<and> m < length ?ns' \<and> depth (?ns' ! m) = Suc (depth (?ns' ! x))"
    if x: "x < length ?ns'" and cm: "(d, m) \<in> set (children (?ns' ! x))" for x d m
  proof (cases "x = length ns")
    case True
    then show ?thesis using cm new by (simp add: AhoCorasickNode_def)
  next
    case False
    then have xl: "x < length ns" using x by simp
    show ?thesis
    proof (cases "(d, m) \<in> set (children (ns ! x))")
      case True
      from wfNodes_childD [OF wf xl True] show ?thesis using old(1) xl by simp
    next
      case False
      then have "x = n" "m = length ns" using cm old(4) [OF xl] by (auto split: if_splits)
      then show ?thesis using new n old(1) [OF n] by simp
    qed
  qed
  have 4: "k < length ?ns' \<and> depth (?ns' ! k) < depth (?ns' ! x)"
    if x: "x < length ?ns'" and f: "fail (?ns' ! x) = Some k" for x k
  proof (cases "x = length ns")
    case True
    then show ?thesis using f new by (simp add: AhoCorasickNode_def)
  next
    case False
    then have xl: "x < length ns" using x by simp
    then have "fail (ns ! x) = Some k" using f old(2) by simp
    from wfNodes_failD [OF wf xl this] show ?thesis using old(1) xl by simp
  qed
  show ?thesis unfolding wfNodes_def using 1 2 3 4 by blast
qed

lemma insertChars_wf:
  assumes "wfNodes ns" "n < length ns" "insertChars ns n ks = (ns', n')"
  shows "wfNodes ns' \<and> n' < length ns'"
  using assms
proof (induction ks arbitrary: ns n)
  case Nil
  then show ?case by simp
next
  case (Cons c cs)
  show ?case
  proof (cases "map_of (children (ns ! n)) c")
    case None
    let ?ns1 = "ns[n := (ns ! n)\<lparr>children := children (ns ! n) @ [(c, length ns)]\<rparr>]
                  @ [AhoCorasickNode\<lparr>depth := depth (ns ! n) + 1\<rparr>]"
    have wf1: "wfNodes ?ns1" by (rule wfNodes_add_child [OF Cons.prems(1,2)])
    have "insertChars ?ns1 (length ns) cs = (ns', n')"
      using Cons.prems(3) None by (simp add: Let_def)
    from Cons.IH [OF wf1 _ this] show ?thesis by simp
  next
    case (Some m)
    from wfNodes_childD [OF Cons.prems(1,2) map_of_SomeD [OF Some]] have m: "m < length ns" by simp
    have "insertChars ns m cs = (ns', n')" using Cons.prems(3) Some by simp
    from Cons.IH [OF Cons.prems(1) m this] show ?thesis .
  qed
qed

lemma addPattern_String:
  "addPattern lc ac (JString s) =
     (if s = [] then Inr ac
      else Inr \<lparr>nodes = (let (ns, n) = insertChars (nodes ac) root (codePoints (lc s))
                          in ns[n := (ns ! n)\<lparr>outputs := outputs (ns ! n) @ [lc s]\<rparr>]),
                built = False\<rparr>)"
  by (simp add: addPattern_def Let_def split: prod.split)

lemma addPattern_cases:
  assumes "addPattern lc ac p = Inr ac'"
  obtains "\<not> truthy p" "ac' = ac"
  | s ns n where "p = JString s" "s \<noteq> []" "insertChars (nodes ac) root (codePoints (lc s)) = (ns, n)"
      "ac' = \<lparr>nodes = ns[n := (ns ! n)\<lparr>outputs := outputs (ns ! n) @ [lc s]\<rparr>], built = False\<rparr>"
  using assms
  by (cases p; cases "insertChars (nodes ac) root (codePoints (lc (case p of JString s \<Rightarrow> s)))")
     (auto simp add: addPattern_def Let_def split: if_splits)

lemma addPattern_wf:
  assumes "wfNodes (nodes ac)" "addPattern lc ac p = Inr ac'"
  shows "wfNodes (nodes ac')"
  using assms(2)
proof (cases rule: addPattern_cases)
  case 1
  then show ?thesis using assms(1) by simp
next
  case (2 s ns n)
  from insertChars_wf [OF assms(1) _ 2(3)] wfNodes_root [OF assms(1)]
  have "wfNodes ns" by simp
  then show ?thesis using 2(4) by (simp add: wfNodes_set_outputs)
qed

lemma wfNodes_new: "wfNodes (nodes AhoCorasick)"
  by (simp add: wfNodes_def AhoCorasick_def AhoCorasickNode_def)

lemma reachable_wf: "reachable lc ac \<Longrightarrow> wfNodes (nodes ac)"
proof (induction rule: reachable.induct)
  case reachable_new
  show ?case by (rule wfNodes_new)
next
  case (reachable_addPattern ac p ac')
  then show ?case using addPattern_wf by blast
next
  case (reachable_build ac ac')
  then show ?case using build_returns by fastforce
qed

lemma linkChild_length: "length (linkChild ns child t) = length ns"
  by (simp add: linkChild_def Let_def)

lemma linkChild_outputs:
  "outputs (linkChild ns child t ! n) =
     (if n = child \<and> child < length ns then outputs (ns ! child) @ outputs (ns ! t)
      else outputs (ns ! n))"
  by (simp add: linkChild_def Let_def nth_update_any)

lemma linkChild_fail:
  "fail (linkChild ns child t ! n) =
     (if n = child \<and> child < length ns then Some t else fail (ns ! n))"
  by (simp add: linkChild_def Let_def nth_update_any)

lemma initFail_length: "length (initFail kids ns) = length ns"
  by (induction kids arbitrary: ns) (simp_all add: initFail_Nil initFail_Cons)

lemma initFail_outputs: "outputs (initFail kids ns ! n) = outputs (ns ! n)"
  by (induction kids arbitrary: ns) (simp_all add: initFail_Nil initFail_Cons nth_update_any)

lemma linkChildren_outputsNonEmpty:
  assumes wf: "wfNodes ns" and cur: "current < length ns"
    and ne: "outputsNonEmpty ns"
    and l: "linkChildren ns current (children (ns ! current)) queue = Some (ns', queue')"
  shows "outputsNonEmpty ns'"
proof -
  have kids: "\<forall>(c, child)\<in>set (children (ns ! current)).
      child < length ns \<and> depth (ns ! child) = Suc (depth (ns ! current))"
    using wfNodes_childD [OF wf cur] by auto
  have "\<exists>ns'. linkChildren ns current (children (ns ! current)) queue
           = Some (ns', queue @ map snd (children (ns ! current)))
         \<and> wfNodes ns' \<and> sameTree ns ns' \<and> outputsNonEmpty ns'"
  proof (rule linkChildren_invariant [where P = "\<lambda>ns _. outputsNonEmpty ns", OF wf cur kids ne])
    fix ns :: "node list" and c child f
    assume "outputsNonEmpty ns" "failTarget ns f c < length ns" "child < length ns"
    then show "outputsNonEmpty (linkChild ns child (failTarget ns f c))"
      by (simp add: outputsNonEmpty_def linkChild_length linkChild_outputs)
  qed
  then show ?thesis using l by auto
qed

lemma build_outputsNonEmpty:
  assumes wf: "wfNodes (nodes ac)" and ne: "outputsNonEmpty (nodes ac)"
    and b: "build ac = Some ac'"
  shows "outputsNonEmpty (nodes ac')"
proof (cases "built ac")
  case True
  then show ?thesis using b ne by (simp add: build_unfold)
next
  case False
  let ?kids = "map snd (children (nodes ac ! root))"
  have r: "0 < length (nodes ac)" using wfNodes_root [OF wf] by simp
  have kd: "k < length (nodes ac) \<and> 0 < depth (nodes ac ! k)" if "k \<in> set ?kids" for k
    using wfNodes_childD [OF wf r] that by auto
  then have "\<forall>k\<in>set ?kids. 0 < depth (nodes ac ! k)" by blast
  from initFail_wf [OF wf this]
  have wf1: "wfNodes (initFail ?kids (nodes ac))" by simp
  have q: "\<forall>x\<in>set ?kids. x < length (initFail ?kids (nodes ac))"
    using kd by (simp add: initFail_length)
  have ne1: "outputsNonEmpty (initFail ?kids (nodes ac))"
    using ne by (simp add: outputsNonEmpty_def initFail_length initFail_outputs)
  from bfs_invariant [where I = "\<lambda>ns _. outputsNonEmpty ns", OF wf1 q ne1]
    linkChildren_outputsNonEmpty
  obtain r where "bfs (initFail ?kids (nodes ac)) ?kids = Some r" "outputsNonEmpty r"
    by blast
  then show ?thesis using False b by (auto simp add: build_unfold)
qed

lemma insertChars_outputsNonEmpty:
  assumes "outputsNonEmpty ns" "n < length ns" "wfNodes ns" "insertChars ns n ks = (ns', n')"
  shows "outputsNonEmpty ns'"
  using assms
proof (induction ks arbitrary: ns n)
  case Nil
  then show ?case by simp
next
  case (Cons c cs)
  show ?case
  proof (cases "map_of (children (ns ! n)) c")
    case None
    let ?ns1 = "ns[n := (ns ! n)\<lparr>children := children (ns ! n) @ [(c, length ns)]\<rparr>]
                  @ [AhoCorasickNode\<lparr>depth := depth (ns ! n) + 1\<rparr>]"
    have wf1: "wfNodes ?ns1" by (rule wfNodes_add_child [OF Cons.prems(3,2)])
    have ne1: "outputsNonEmpty ?ns1"
      using Cons.prems(1)
      by (auto simp add: outputsNonEmpty_def nth_append nth_update_any AhoCorasickNode_def
          less_Suc_eq)
    have "insertChars ?ns1 (length ns) cs = (ns', n')"
      using Cons.prems(4) None by (simp add: Let_def)
    from Cons.IH [OF ne1 _ wf1 this] show ?thesis by simp
  next
    case (Some m)
    from wfNodes_childD [OF Cons.prems(3,2) map_of_SomeD [OF Some]] have m: "m < length ns" by simp
    have "insertChars ns m cs = (ns', n')" using Cons.prems(4) Some by simp
    from Cons.IH [OF Cons.prems(1) m Cons.prems(3) this] show ?thesis .
  qed
qed

lemma reachable_outputsNonEmpty:
  assumes lc: "\<And>s. s \<noteq> [] \<Longrightarrow> lc s \<noteq> []"
  shows "reachable lc ac \<Longrightarrow> outputsNonEmpty (nodes ac)"
proof (induction rule: reachable.induct)
  case reachable_new
  show ?case by (simp add: outputsNonEmpty_def AhoCorasick_def AhoCorasickNode_def)
next
  case (reachable_addPattern ac p ac')
  from reachable_addPattern.hyps(2) show ?case
  proof (cases rule: addPattern_cases)
    case 1
    then show ?thesis using reachable_addPattern.IH by simp
  next
    case (2 s ns n)
    have wf: "wfNodes (nodes ac)" by (rule reachable_wf [OF reachable_addPattern.hyps(1)])
    from insertChars_outputsNonEmpty [OF reachable_addPattern.IH _ wf 2(3)] wfNodes_root [OF wf]
    have "outputsNonEmpty ns" by simp
    moreover have "lc s \<noteq> []" using lc 2(2) by simp
    ultimately show ?thesis using 2(4)
      by (auto simp add: outputsNonEmpty_def nth_update_any)
  qed
next
  case (reachable_build ac ac')
  then show ?case using build_outputsNonEmpty reachable_wf by blast
qed

text \<open>search\<close>

lemma sorted_map_const: "sorted (map (\<lambda>x. k) xs)"
  by (induction xs) simp_all

lemma searchLoop_returns:
  assumes wf: "wfNodes ns" and nd: "nd < length ns"
  shows "\<exists>new. searchLoop ns cs i nd res = Some (res @ new)
           \<and> (\<forall>m\<in>set new. (\<exists>n<length ns. pattern m \<in> set (outputs (ns ! n)))
                  \<and> start m = end' m - int (length (pattern m))
                  \<and> int i < end' m \<and> end' m \<le> int i + int (length cs))
           \<and> sorted (map end' new)"
  using nd
proof (induction cs arbitrary: i nd res)
  case Nil
  then show ?case by simp
next
  case (Cons c cs)
  from followFail_returns [OF wf Cons.prems, of "[c]"] obtain r where
    r: "followFail ns (Some nd) [c] = Some r"
       "\<forall>j. r = Some j \<longrightarrow> j < length ns \<and> map_of (children (ns ! j)) [c] \<noteq> None" by blast
  show ?case
  proof (cases r)
    case None
    from Cons.IH [of 0 "Suc i" res] wfNodes_root [OF wf] obtain new where
      "searchLoop ns cs (Suc i) 0 res = Some (res @ new)"
      "\<forall>m\<in>set new. (\<exists>n<length ns. pattern m \<in> set (outputs (ns ! n)))
                  \<and> start m = end' m - int (length (pattern m))
                  \<and> int (Suc i) < end' m \<and> end' m \<le> int (Suc i) + int (length cs)"
      "sorted (map end' new)" by auto
    then show ?thesis using r(1) None by (intro exI [of _ new]) auto
  next
    case (Some k)
    with r(2) obtain nd' where k: "k < length ns" "map_of (children (ns ! k)) [c] = Some nd'" by auto
    from wfNodes_childD [OF wf k(1) map_of_SomeD [OF k(2)]] have nd': "nd' < length ns" by simp
    let ?hits = "map (\<lambda>p. \<lparr>start = int i - int (length p) + 1, end' = int i + 1, pattern = p\<rparr>)
                      (outputs (ns ! nd'))"
    from Cons.IH [OF nd', of "Suc i" "res @ ?hits"] obtain new where
      new: "searchLoop ns cs (Suc i) nd' (res @ ?hits) = Some ((res @ ?hits) @ new)"
      "\<forall>m\<in>set new. (\<exists>n<length ns. pattern m \<in> set (outputs (ns ! n)))
                  \<and> start m = end' m - int (length (pattern m))
                  \<and> int (Suc i) < end' m \<and> end' m \<le> int (Suc i) + int (length cs)"
      "sorted (map end' new)" by blast
    have "searchLoop ns (c # cs) i nd res = Some (res @ (?hits @ new))"
      using r(1) Some k(2) new(1) by simp
    moreover have "\<forall>m\<in>set (?hits @ new). (\<exists>n<length ns. pattern m \<in> set (outputs (ns ! n)))
                  \<and> start m = end' m - int (length (pattern m))
                  \<and> int i < end' m \<and> end' m \<le> int i + int (length (c # cs))"
      using new(2) nd' by auto
    moreover have "sorted (map end' (?hits @ new))"
      using new(2,3) by (auto simp add: sorted_append comp_def sorted_map_const)
    ultimately show ?thesis by blast
  qed
qed

lemma search_unfold:
  "search lc ac text =
     (case build ac of
        None \<Rightarrow> None
      | Some ac' \<Rightarrow>
          (case searchLoop (nodes ac') (lc text) 0 root [] of
             None \<Rightarrow> None
           | Some results \<Rightarrow> Some (results, ac')))"
  by (cases "built ac") (simp_all add: search_def build_def Let_def split: option.split)

lemma search_returns:
  assumes wf: "wfNodes (nodes ac)"
  shows "\<exists>rs ac'. search lc ac text = Some (rs, ac') \<and> build ac = Some ac'
           \<and> wfNodes (nodes ac')
           \<and> (\<forall>m\<in>set rs. (\<exists>n<length (nodes ac'). pattern m \<in> set (outputs (nodes ac' ! n)))
                  \<and> start m = end' m - int (length (pattern m))
                  \<and> 0 < end' m \<and> end' m \<le> int (length (lc text)))
           \<and> sorted (map end' rs)"
proof -
  from build_returns [OF wf] obtain ac' where b: "build ac = Some ac'" "wfNodes (nodes ac')" by blast
  from searchLoop_returns [OF b(2), of 0 "lc text" 0 "[]"] wfNodes_root [OF b(2)]
  show ?thesis using b by (auto simp add: search_unfold)
qed

section \<open>Overlap resolution and the acceptance loop\<close>

subsection \<open>Overlap resolution\<close>

lemma compareMatches_le:
  "compareMatches a b \<le> 0 \<longleftrightarrow>
     start a < start b \<or> (start a = start b \<and> end' b \<le> end' a)"
  by (auto simp add: compareMatches_def)

lemma set_insertSorted: "set (insertSorted x ys) = insert x (set ys)"
  by (induction ys) auto

lemma set_sortMatches: "set (sortMatches ms) = set ms"
  by (induction ms) (simp_all add: sortMatches_def set_insertSorted)

lemma sorted_insertSorted:
  "sorted_wrt (\<lambda>a b. compareMatches a b \<le> 0) ys
     \<Longrightarrow> sorted_wrt (\<lambda>a b. compareMatches a b \<le> 0) (insertSorted x ys)"
proof (induction ys)
  case Nil
  then show ?case by simp
next
  case (Cons y ys)
  show ?case
  proof (cases "compareMatches x y \<le> 0")
    case True
    then have "\<forall>z\<in>set ys. compareMatches x z \<le> 0"
      using Cons.prems by (auto simp add: compareMatches_le)
    with True Cons.prems show ?thesis by simp
  next
    case False
    then have "compareMatches y x \<le> 0" by (auto simp add: compareMatches_le)
    with False Cons show ?thesis by (auto simp add: set_insertSorted)
  qed
qed

lemma sorted_sortMatches: "sorted_wrt (\<lambda>a b. compareMatches a b \<le> 0) (sortMatches ms)"
  by (induction ms) (simp_all add: sortMatches_def sorted_insertSorted)

lemma set_keepFrom: "set (keepFrom l ms) \<subseteq> set ms"
  by (induction ms arbitrary: l) auto

lemma keepFrom_lower:
  "\<forall>m\<in>set ms. start m \<le> end' m \<Longrightarrow> \<forall>k\<in>set (keepFrom l ms). l \<le> start k"
proof (induction ms arbitrary: l)
  case Nil
  then show ?case by simp
next
  case (Cons m ms)
  then have 1: "\<forall>k\<in>set (keepFrom (end' m) ms). end' m \<le> start k"
    and 2: "\<forall>k\<in>set (keepFrom l ms). l \<le> start k" by simp_all
  have 3: "start m \<le> end' m" using Cons.prems by simp
  show ?case
  proof (cases "start m < l")
    case True
    then show ?thesis using 2 by simp
  next
    case False
    then have "l \<le> start k" if "k \<in> set (keepFrom (end' m) ms)" for k
      using 1 3 that by fastforce
    then show ?thesis using False by auto
  qed
qed

lemma keepFrom_disjoint:
  "\<forall>m\<in>set ms. start m \<le> end' m \<Longrightarrow> sorted_wrt (\<lambda>a b. end' a \<le> start b) (keepFrom l ms)"
proof (induction ms arbitrary: l)
  case Nil
  then show ?case by simp
next
  case (Cons m ms)
  then show ?case using keepFrom_lower [of ms "end' m"] by simp
qed

lemma keepFrom_longest:
  assumes "sorted_wrt (\<lambda>a b. compareMatches a b \<le> 0) ms" "\<forall>m\<in>set ms. start m < end' m"
  shows "\<forall>k\<in>set (keepFrom l ms). \<forall>c\<in>set ms. start c = start k \<longrightarrow> end' c \<le> end' k"
  using assms
proof (induction ms arbitrary: l)
  case Nil
  then show ?case by simp
next
  case (Cons m ms)
  have le: "\<forall>m\<in>set ms. start m \<le> end' m" using Cons.prems(2) by fastforce
  have IH: "\<forall>k\<in>set (keepFrom l' ms). \<forall>c\<in>set ms. start c = start k \<longrightarrow> end' c \<le> end' k" for l'
    using Cons by simp
  show ?case
  proof (cases "start m < l")
    case True
    then show ?thesis using IH [of l] keepFrom_lower [OF le, of l] by fastforce
  next
    case False
    have head: "\<forall>c\<in>set ms. start c = start m \<longrightarrow> end' c \<le> end' m"
      using Cons.prems(1) by (auto simp add: compareMatches_le)
    have "\<forall>k\<in>set (keepFrom (end' m) ms). start m < start k"
      using keepFrom_lower [OF le, of "end' m"] Cons.prems(2) by fastforce
    then show ?thesis using False IH [of "end' m"] head by fastforce
  qed
qed

lemma set_removeOverlaps: "set (removeOverlaps ms) \<subseteq> set ms"
  using set_keepFrom [of "- 1" "sortMatches ms"] by (auto simp add: removeOverlaps_def set_sortMatches)

lemma removeOverlaps_disjoint:
  assumes "\<forall>m\<in>set ms. start m < end' m"
  shows "sorted_wrt (\<lambda>a b. end' a \<le> start b) (removeOverlaps ms)"
proof -
  have "\<forall>m\<in>set (sortMatches ms). start m \<le> end' m"
    using assms by (fastforce simp add: set_sortMatches)
  from keepFrom_disjoint [OF this] show ?thesis by (simp add: removeOverlaps_def)
qed

lemma removeOverlaps_longest:
  assumes "\<forall>m\<in>set ms. start m < end' m"
  shows "\<forall>k\<in>set (removeOverlaps ms). \<forall>c\<in>set ms. start c = start k \<longrightarrow> end' c \<le> end' k"
proof -
  have "\<forall>m\<in>set (sortMatches ms). start m < end' m"
    using assms by (simp add: set_sortMatches)
  from keepFrom_longest [OF sorted_sortMatches this, of "- 1"]
  show ?thesis by (simp add: removeOverlaps_def set_sortMatches)
qed

lemma mset_insertSorted: "mset (insertSorted x ys) = add_mset x (mset ys)"
  by (induction ys) simp_all

lemma mset_sortMatches: "mset (sortMatches ms) = mset ms"
  by (induction ms) (simp_all add: sortMatches_def mset_insertSorted)

lemma filter_insertSorted_tie:
  "filter (\<lambda>y. start y = s \<and> end' y = e) (insertSorted x ys)
     = (if start x = s \<and> end' x = e then x # filter (\<lambda>y. start y = s \<and> end' y = e) ys
        else filter (\<lambda>y. start y = s \<and> end' y = e) ys)"
  by (induction ys) (auto simp add: compareMatches_le)

lemma sortMatches_stable:
  "filter (\<lambda>y. start y = s \<and> end' y = e) (sortMatches ms)
     = filter (\<lambda>y. start y = s \<and> end' y = e) ms"
  by (induction ms) (simp_all add: sortMatches_def filter_insertSorted_tie)

lemma subseq_keepFrom: "subseq (keepFrom l ms) ms"
  by (induction ms arbitrary: l) auto

lemma keepFrom_blocked:
  assumes "sorted_wrt (\<lambda>a b. compareMatches a b \<le> 0) ms"
  shows "\<forall>v\<in>set ms. v \<in> set (keepFrom l ms) \<or> start v < l
           \<or> (\<exists>k\<in>set (keepFrom l ms). compareMatches k v \<le> 0 \<and> start v < end' k)"
  using assms
proof (induction ms arbitrary: l)
  case Nil
  then show ?case by simp
next
  case (Cons m ms)
  have s: "sorted_wrt (\<lambda>a b. compareMatches a b \<le> 0) ms"
    and h: "\<forall>v\<in>set ms. compareMatches m v \<le> 0" using Cons.prems by simp_all
  show ?case
  proof (cases "start m < l")
    case True
    then show ?thesis using Cons.IH [OF s, of l] by simp
  next
    case False
    have "v \<in> set (keepFrom l (m # ms)) \<or> start v < l
           \<or> (\<exists>k\<in>set (keepFrom l (m # ms)). compareMatches k v \<le> 0 \<and> start v < end' k)"
      if "v \<in> set (m # ms)" for v
    proof (cases "v = m")
      case True
      then show ?thesis using False by simp
    next
      case vm: False
      then have v: "v \<in> set ms" using that by simp
      from Cons.IH [OF s, of "end' m"] v
      consider "v \<in> set (keepFrom (end' m) ms)" | "start v < end' m"
        | k where "k \<in> set (keepFrom (end' m) ms)" "compareMatches k v \<le> 0" "start v < end' k"
        by blast
      then show ?thesis
      proof cases
        case 1
        then show ?thesis using False by simp
      next
        case 2
        then show ?thesis using False h v by auto
      next
        case 3
        then show ?thesis using False by auto
      qed
    qed
    then show ?thesis by blast
  qed
qed

lemma removeOverlaps_eq: "removeOverlaps ms = keepFrom (- 1) (sortMatches ms)"
  by (simp add: removeOverlaps_def sortMatches_def)

lemma removeOverlaps_blocked:
  "\<forall>v\<in>set ms. v \<in> set (removeOverlaps ms) \<or> start v < - 1
     \<or> (\<exists>k\<in>set (removeOverlaps ms). compareMatches k v \<le> 0 \<and> start v < end' k)"
  using keepFrom_blocked [OF sorted_sortMatches, of ms "- 1"]
  by (simp add: removeOverlaps_eq set_sortMatches)

lemma sorted_wrt_map_outputFormat:
  "sorted_wrt (\<lambda>a b. P (start a) (end' a) (start b) (end' b)) (map outputFormat vs)
     = sorted_wrt (\<lambda>a b. P (start a) (end' a) (start b) (end' b)) vs"
  by (simp add: sorted_wrt_map outputFormat_def)

subsection \<open>findTerms\<close>

lemma validMatches_D:
  "v \<in> set (validMatches B m text rs) \<Longrightarrow>
     \<exists>r\<in>set rs. start v = start r \<and> end' v = end' r \<and> pattern v = pattern r
       \<and> pattern r \<notin> set EXCLUDED_PATTERNS
       \<and> isWordBoundaryMatch text (start r) (end' r)
       \<and> isValidCaseMatch (index m) text (start r) (end' r) (pattern r)
       \<and> filteredTermIds v = filterByLevel B m (getTermIdsForPattern (index m) (pattern r))
       \<and> filteredTermIds v \<noteq> []"
  by (induction rs) (auto simp add: Let_def split: if_splits)

lemma findTerms_acceptedMatches:
  "findTerms lc B m text =
     (case acceptedMatches lc B m text of
        None \<Rightarrow> None
      | Some (Inl e) \<Rightarrow> Some (Inl e)
      | Some (Inr (vs, m')) \<Rightarrow> Some (Inr (map outputFormat (removeOverlaps vs), m')))"
  by (auto simp add: findTerms_def acceptedMatches_def removeOverlaps_def Let_def
      split: option.splits sum.splits prod.splits)

lemma addPatterns_strings:
  assumes "reachable lc ac"
  shows "\<exists>ac'. addPatterns lc ac (map JString ps) = Inr ac' \<and> reachable lc ac'"
  using assms
proof (induction ps arbitrary: ac)
  case Nil
  then show ?case by simp
next
  case (Cons p ps)
  obtain ac1 where a: "addPattern lc ac (JString p) = Inr ac1"
    by (cases "p = []") (simp_all add: addPattern_String)
  from reachable_addPattern [OF Cons.prems a] have "reachable lc ac1" .
  from Cons.IH [OF this] show ?case using a by simp
qed

lemma initialize_returns:
  assumes "reachable lc (automaton m)"
  shows "\<exists>m1. initialize lc m = Some (Inr m1) \<and> reachable lc (automaton m1)
           \<and> index m1 = index m \<and> userLevel m1 = userLevel m
           \<and> enableBetaFeatures m1 = enableBetaFeatures m"
proof (cases "initialized m")
  case True
  then show ?thesis using assms by (simp add: initialize_def)
next
  case False
  from addPatterns_strings [OF assms, of "getAllPatterns (index m)"] obtain ac where
    ac: "addPatterns lc (automaton m) (map JString (getAllPatterns (index m))) = Inr ac"
        "reachable lc ac" by blast
  from build_returns [OF reachable_wf [OF ac(2)]] obtain ac' where b: "build ac = Some ac'" by blast
  from reachable_build [OF ac(2) b] have "reachable lc ac'" .
  then show ?thesis using False ac(1) b by (simp add: initialize_def Let_def)
qed

lemma acceptedMatches_returns:
  assumes "reachable lc (automaton m)"
  shows "\<exists>vs m'. acceptedMatches lc B m text = Some (Inr (vs, m'))
           \<and> reachable lc (automaton m') \<and> index m' = index m
           \<and> (\<forall>v\<in>set vs. acceptedHit B m' text v)"
proof -
  from initialize_returns [OF assms] obtain m1 where
    m1: "initialize lc m = Some (Inr m1)" "reachable lc (automaton m1)" "index m1 = index m" by blast
  show ?thesis
  proof (cases "text = []")
    case True
    then show ?thesis using m1 by (simp add: acceptedMatches_def)
  next
    case False
    from search_returns [OF reachable_wf [OF m1(2)], of lc "text"] obtain rs ac where
      s: "search lc (automaton m1) text = Some (rs, ac)" "build (automaton m1) = Some ac"
         "\<forall>r\<in>set rs. (\<exists>n<length (nodes ac). pattern r \<in> set (outputs (nodes ac ! n)))
                  \<and> start r = end' r - int (length (pattern r))" by blast
    let ?m2 = "m1\<lparr>automaton := ac\<rparr>"
    have acc: "acceptedMatches lc B m text = Some (Inr (validMatches B ?m2 text rs, ?m2))"
      using m1(1) False s(1) by (simp add: acceptedMatches_def Let_def)
    have "acceptedHit B ?m2 text v" if "v \<in> set (validMatches B ?m2 text rs)" for v
      using validMatches_D [OF that] s(3) by (fastforce simp add: acceptedHit_def)
    moreover have "reachable lc (automaton ?m2)" using reachable_build [OF m1(2) s(2)] by simp
    ultimately show ?thesis using acc m1(3) by auto
  qed
qed

lemma removeOverlaps_image:
  "set (map outputFormat (removeOverlaps vs)) \<subseteq> outputFormat ` set vs"
  using set_removeOverlaps [of vs] by auto


lemma acceptedHit_case:
  "acceptedHit B m text v \<Longrightarrow> isValidCaseMatch (index m) text (start v) (end' v) (pattern v)"
  unfolding acceptedHit_def by blast

lemma acceptedHit_excluded: "acceptedHit B m text v \<Longrightarrow> pattern v \<notin> set EXCLUDED_PATTERNS"
  unfolding acceptedHit_def by blast

section \<open>Level and feature filtering\<close>

text \<open>
  C5.  The level and feature filter keeps exactly the term identifiers that the
  specification's rule keeps, in their order: a term without metadata; otherwise a
  term whose level (standard when unrecorded) is not an opt-in level while the flag
  is off and whose tier equals the tier of the effective caller level, where the
  caller setting \<open>all\<close> counts as the standard level.
\<close>

theorem filterByLevel_keeps_exactly:
  "filterByLevel optInLevels m tids = filter (keptBySpec optInLevels m) tids"
proof -
  have "keepTermId optInLevels m t = keptBySpec optInLevels m t" for t
    by (auto simp add: keepTermId_def keptBySpec_def termMetaOf_def levelOrStandard_def
        effectiveLevel_def levelTier_def Let_def split: option.splits)
  then show ?thesis
    by (simp add: filterByLevel_def cong: filter_cong)
qed

theorem filterByLevel_keeps_exactly_witness:
  "filterByLevel [js ''lab''] (TermMatcher levelIndex)
     [js ''basic'', js ''standard'', js ''unrecorded'', js ''formula'', js ''missing'']
   = [js ''standard'', js ''unrecorded'', js ''missing'']"
  using filterByLevel_keeps_exactly [of "[js ''lab'']" "TermMatcher levelIndex"
      "[js ''basic'', js ''standard'', js ''unrecorded'', js ''formula'', js ''missing'']"]
  by (simp add: keptBySpec_def termMetaOf_def levelOrStandard_def effectiveLevel_def
      levelTier_def nullish_def LEVEL_HIERARCHY_def TermMatcher_def levelIndex_def js_def)

text \<open>
  C10.  A caller level that names a property inherited from \<open>Object.prototype\<close> is
  not among the three tiers, yet it is not treated as the standard tier: with the
  caller level \<open>constructor\<close> a standard-tier term is dropped, which the caller level
  \<open>medschool\<close> keeps.
\<close>

theorem unknown_level_constructor_not_standard:
  "filterByLevel [] (setUserLevel (TermMatcher levelIndex) (Some (js ''constructor'')))
     [js ''standard''] = []
   \<and> filterByLevel [] (setUserLevel (TermMatcher levelIndex) (Some (js ''medschool'')))
     [js ''standard''] = [js ''standard'']
   \<and> setUserLevel (TermMatcher levelIndex) None
     = setUserLevel (TermMatcher levelIndex) (Some (js ''medschool''))
   \<and> setUserLevel (TermMatcher levelIndex) (Some [])
     = setUserLevel (TermMatcher levelIndex) (Some (js ''medschool''))"
  by (simp add: filterByLevel_def keepTermId_def setUserLevel_def nullish_def
      LEVEL_HIERARCHY_def objectPrototypeKeys_def TermMatcher_def levelIndex_def js_def)

section \<open>The matcher's results\<close>

lemma asciiLower_nonempty: "s \<noteq> [] \<Longrightarrow> asciiLower s \<noteq> []"
  by (simp add: asciiLower_def)

lemma reachable_TermMatcher: "reachable lc (automaton (TermMatcher idx))"
  by (simp add: TermMatcher_def reachable_new)

lemma acceptedHit_nonempty:
  assumes "outputsNonEmpty (nodes (automaton m))" "acceptedHit B m text v"
  shows "start v < end' v"
  using assms by (fastforce simp add: acceptedHit_def outputsNonEmpty_def)

lemma sortMatches_order:
  "sorted_wrt (\<lambda>a b. start a < start b \<or> (start a = start b \<and> end' b - start b \<le> end' a - start a))
     (sortMatches ms)"
  using sorted_sortMatches [of ms]
  by (rule sorted_wrt_mono_rel [rotated]) (auto simp add: compareMatches_le)

text \<open>
  C2.  Overlap resolution sorts the accepted matches by ascending start, the longer
  span first among equal starts: the sorted array is a permutation of the accepted
  matches that leaves matches of the same span in their order.  The scan starts
  with \<open>lastEnd = -1\<close> and goes through the sorted array in its order; it keeps a
  match exactly when its start is at or after the end of the last match kept: no
  kept match starts before \<open>-1\<close> or before the end of a match kept earlier, and a
  match that is dropped starts before \<open>-1\<close> or before the end of a kept match that
  does not come after it in the sorted array.  So, for a lowercasing that sends no
  non-empty string to the empty one and a matcher whose automaton is reachable,
  \<open>findTerms\<close> returns matches with \<open>start < end\<close> that are pairwise non-overlapping
  and in ascending order of start, and no accepted match that shares its start with
  a returned one is longer than it.
\<close>

theorem findTerms_non_overlapping:
  assumes lc: "\<And>s. s \<noteq> [] \<Longrightarrow> toLowerCase s \<noteq> []"
    and r: "reachable toLowerCase (automaton m)"
  shows "\<exists>res vs ks m'.
           findTerms toLowerCase B m text = Some (Inr (res, m'))
           \<and> acceptedMatches toLowerCase B m text = Some (Inr (vs, m'))
           \<and> ks = keepFrom (- 1) (sortMatches vs)
           \<and> res = map outputFormat ks
           \<and> mset (sortMatches vs) = mset vs
           \<and> (\<forall>s e. filter (\<lambda>v. start v = s \<and> end' v = e) (sortMatches vs)
                      = filter (\<lambda>v. start v = s \<and> end' v = e) vs)
           \<and> sorted_wrt (\<lambda>a b. start a < start b
                  \<or> (start a = start b \<and> end' b - start b \<le> end' a - start a)) (sortMatches vs)
           \<and> subseq ks (sortMatches vs)
           \<and> (\<forall>k\<in>set ks. - 1 \<le> start k)
           \<and> (\<forall>v\<in>set vs. v \<in> set ks \<or> start v < - 1
                  \<or> (\<exists>k\<in>set ks. compareMatches k v \<le> 0 \<and> start v < end' k))
           \<and> (\<forall>t\<in>set res. start t < end' t)
           \<and> sorted_wrt (\<lambda>a b. end' a \<le> start b) res
           \<and> sorted_wrt (\<lambda>a b. start a < start b) res
           \<and> (\<forall>t\<in>set res. \<forall>v\<in>set vs. start v = start t \<longrightarrow> end' v \<le> end' t)"
proof -
  from acceptedMatches_returns [OF r, of B "text"] obtain vs m' where
    a: "acceptedMatches toLowerCase B m text = Some (Inr (vs, m'))"
       "reachable toLowerCase (automaton m')" "\<forall>v\<in>set vs. acceptedHit B m' text v" by blast
  have ne: "outputsNonEmpty (nodes (automaton m'))"
    using reachable_outputsNonEmpty [OF lc a(2)] by simp
  have pos: "\<forall>v\<in>set vs. start v < end' v"
    using a(3) acceptedHit_nonempty [OF ne] by blast
  let ?ks = "removeOverlaps vs"
  let ?res = "map outputFormat ?ks"
  have f: "findTerms toLowerCase B m text = Some (Inr (?res, m'))"
    using a(1) by (simp add: findTerms_acceptedMatches)
  have ks: "?ks = keepFrom (- 1) (sortMatches vs)" by (rule removeOverlaps_eq)
  have sub: "set ?ks \<subseteq> set vs" by (rule set_removeOverlaps)
  have sq: "subseq ?ks (sortMatches vs)" unfolding ks by (rule subseq_keepFrom)
  have le: "\<forall>v\<in>set (sortMatches vs). start v \<le> end' v"
    using pos by (fastforce simp add: set_sortMatches)
  have lo: "\<forall>k\<in>set ?ks. - 1 \<le> start k"
    unfolding ks by (rule keepFrom_lower [OF le])
  have st: "\<forall>s e. filter (\<lambda>v. start v = s \<and> end' v = e) (sortMatches vs)
                      = filter (\<lambda>v. start v = s \<and> end' v = e) vs"
    by (simp add: sortMatches_stable)
  have 1: "\<forall>t\<in>set ?res. start t < end' t"
    using pos sub by (auto simp add: outputFormat_def)
  have dis: "sorted_wrt (\<lambda>a b. end' a \<le> start b) ?ks" by (rule removeOverlaps_disjoint [OF pos])
  then have 2: "sorted_wrt (\<lambda>a b. end' a \<le> start b) ?res"
    by (simp add: sorted_wrt_map outputFormat_def)
  have "sorted_wrt (\<lambda>a b. start a < start b) ?ks"
  proof (rule sorted_wrt_mono_rel [OF _ dis])
    fix a b assume "a \<in> set ?ks" "b \<in> set ?ks" "end' a \<le> start b"
    moreover have "start a < end' a" using pos sub \<open>a \<in> set ?ks\<close> by blast
    ultimately show "start a < start b" by simp
  qed
  then have 3: "sorted_wrt (\<lambda>a b. start a < start b) ?res"
    by (simp add: sorted_wrt_map outputFormat_def)
  have 4: "\<forall>t\<in>set ?res. \<forall>v\<in>set vs. start v = start t \<longrightarrow> end' v \<le> end' t"
    using removeOverlaps_longest [OF pos] by (auto simp add: outputFormat_def)
  show ?thesis
  proof (intro exI conjI)
    show "findTerms toLowerCase B m text = Some (Inr (?res, m'))" by (rule f)
    show "acceptedMatches toLowerCase B m text = Some (Inr (vs, m'))" by (rule a(1))
    show "?ks = keepFrom (- 1) (sortMatches vs)" by (rule ks)
    show "?res = map outputFormat ?ks" by (rule refl)
    show "mset (sortMatches vs) = mset vs" by (rule mset_sortMatches)
    show "subseq ?ks (sortMatches vs)" by (rule sq)
  qed (rule st sortMatches_order lo removeOverlaps_blocked 1 2 3 4)+
qed

text \<open>
  The unit test with three patterns: \<open>heart\<close> and \<open>heart failure\<close> start together and
  the longer one is kept, \<open>hypertension\<close> lies before them and is kept too.  Two
  matches that touch, one ending where the other starts, are both kept.
\<close>

theorem findTerms_non_overlapping_witness:
  "map_option (map_sum id fst)
     (findTerms asciiLower [] (TermMatcher heartIndex)
        (js ''Patient with hypertension and heart failure''))
   = Some (Inr [\<lparr>start = 13, end' = 25, termIds = [js ''hypertension-001'']\<rparr>,
                \<lparr>start = 30, end' = 43, termIds = [js ''heart-failure'']\<rparr>])
   \<and> map_option (map_sum id (map (\<lambda>v. (start v, end' v, pattern v)) \<circ> fst))
     (acceptedMatches asciiLower [] (TermMatcher heartIndex)
        (js ''Patient with hypertension and heart failure''))
   = Some (Inr [(13, 25, js ''hypertension''), (30, 35, js ''heart''),
                (30, 43, js ''heart failure'')])
   \<and> map_option (map_sum id fst)
     (findTerms asciiLower [] (TermMatcher adjacentIndex) (js ''a-+b''))
   = Some (Inr [\<lparr>start = 0, end' = 2, termIds = [js ''first'']\<rparr>,
                \<lparr>start = 2, end' = 4, termIds = [js ''second'']\<rparr>])
   \<and> (\<exists>res vs ks m'.
        findTerms asciiLower [] (TermMatcher heartIndex)
            (js ''Patient with hypertension and heart failure'') = Some (Inr (res, m'))
        \<and> acceptedMatches asciiLower [] (TermMatcher heartIndex)
            (js ''Patient with hypertension and heart failure'') = Some (Inr (vs, m'))
        \<and> res = map outputFormat ks
        \<and> mset (sortMatches vs) = mset vs
        \<and> subseq ks (sortMatches vs)
        \<and> (\<forall>v\<in>set vs. v \<in> set ks \<or> start v < - 1
               \<or> (\<exists>k\<in>set ks. compareMatches k v \<le> 0 \<and> start v < end' k))
        \<and> (\<forall>t\<in>set res. start t < end' t)
        \<and> sorted_wrt (\<lambda>a b. end' a \<le> start b) res
        \<and> (\<forall>t\<in>set res. \<forall>v\<in>set vs. start v = start t \<longrightarrow> end' v \<le> end' t))"
proof -
  have 1: "map_option (map_sum id fst)
     (findTerms asciiLower [] (TermMatcher heartIndex)
        (js ''Patient with hypertension and heart failure''))
   = Some (Inr [\<lparr>start = 13, end' = 25, termIds = [js ''hypertension-001'']\<rparr>,
                \<lparr>start = 30, end' = 43, termIds = [js ''heart-failure'']\<rparr>])"
    by code_simp
  have 2: "map_option (map_sum id (map (\<lambda>v. (start v, end' v, pattern v)) \<circ> fst))
     (acceptedMatches asciiLower [] (TermMatcher heartIndex)
        (js ''Patient with hypertension and heart failure''))
   = Some (Inr [(13, 25, js ''hypertension''), (30, 35, js ''heart''),
                (30, 43, js ''heart failure'')])"
    by code_simp
  have 3: "map_option (map_sum id fst)
     (findTerms asciiLower [] (TermMatcher adjacentIndex) (js ''a-+b''))
   = Some (Inr [\<lparr>start = 0, end' = 2, termIds = [js ''first'']\<rparr>,
                \<lparr>start = 2, end' = 4, termIds = [js ''second'']\<rparr>])"
    by code_simp
  have "\<exists>res vs ks m'.
        findTerms asciiLower [] (TermMatcher heartIndex)
            (js ''Patient with hypertension and heart failure'') = Some (Inr (res, m'))
        \<and> acceptedMatches asciiLower [] (TermMatcher heartIndex)
            (js ''Patient with hypertension and heart failure'') = Some (Inr (vs, m'))
        \<and> ks = keepFrom (- 1) (sortMatches vs)
        \<and> res = map outputFormat ks
        \<and> mset (sortMatches vs) = mset vs
        \<and> (\<forall>s e. filter (\<lambda>v. start v = s \<and> end' v = e) (sortMatches vs)
                   = filter (\<lambda>v. start v = s \<and> end' v = e) vs)
        \<and> sorted_wrt (\<lambda>a b. start a < start b
               \<or> (start a = start b \<and> end' b - start b \<le> end' a - start a)) (sortMatches vs)
        \<and> subseq ks (sortMatches vs)
        \<and> (\<forall>k\<in>set ks. - 1 \<le> start k)
        \<and> (\<forall>v\<in>set vs. v \<in> set ks \<or> start v < - 1
               \<or> (\<exists>k\<in>set ks. compareMatches k v \<le> 0 \<and> start v < end' k))
        \<and> (\<forall>t\<in>set res. start t < end' t)
        \<and> sorted_wrt (\<lambda>a b. end' a \<le> start b) res
        \<and> sorted_wrt (\<lambda>a b. start a < start b) res
        \<and> (\<forall>t\<in>set res. \<forall>v\<in>set vs. start v = start t \<longrightarrow> end' v \<le> end' t)"
    by (rule findTerms_non_overlapping) (erule asciiLower_nonempty, rule reachable_TermMatcher)
  then have 4: "\<exists>res vs ks m'.
        findTerms asciiLower [] (TermMatcher heartIndex)
            (js ''Patient with hypertension and heart failure'') = Some (Inr (res, m'))
        \<and> acceptedMatches asciiLower [] (TermMatcher heartIndex)
            (js ''Patient with hypertension and heart failure'') = Some (Inr (vs, m'))
        \<and> res = map outputFormat ks
        \<and> mset (sortMatches vs) = mset vs
        \<and> subseq ks (sortMatches vs)
        \<and> (\<forall>v\<in>set vs. v \<in> set ks \<or> start v < - 1
               \<or> (\<exists>k\<in>set ks. compareMatches k v \<le> 0 \<and> start v < end' k))
        \<and> (\<forall>t\<in>set res. start t < end' t)
        \<and> sorted_wrt (\<lambda>a b. end' a \<le> start b) res
        \<and> (\<forall>t\<in>set res. \<forall>v\<in>set vs. start v = start t \<longrightarrow> end' v \<le> end' t)"
    by (elim exE conjE, intro exI conjI)
  from 1 2 3 4 show ?thesis by (intro conjI)
qed

subsection \<open>Word boundaries\<close>





subsection \<open>Case-sensitive patterns\<close>

text \<open>
  A required casing that is the empty string is not \<open>null\<close>, yet \<open>_isValidCaseMatch\<close>
  takes it for a missing one: the hit \<open>chf\<close> is accepted though it differs from it.
\<close>

theorem empty_required_casing_accepts:
  "map_option (map_sum id fst) (findTerms asciiLower [] (TermMatcher emptyCaseIndex) (js ''chf''))
     = Some (Inr [\<lparr>start = 0, end' = 3, termIds = [js ''heart-failure-001'']\<rparr>])
   \<and> map_option isCaseSensitive (getPatternMetadata emptyCaseIndex (js ''chf'')) = Some True
   \<and> map_option originalCase (getPatternMetadata emptyCaseIndex (js ''chf'')) = Some (Some [])
   \<and> slice (js ''chf'') 0 3 \<noteq> []"
  by code_simp

text \<open>
  C6, amended.  Every match that \<open>findTerms\<close> returns comes from an accepted hit,
  and an accepted hit whose pattern metadata marks it case-sensitive with a required
  casing that is neither \<open>null\<close> nor empty has exactly that casing:
  \<open>text.slice(start, end)\<close> equals it.  So the pattern with required casing \<open>CHF\<close>
  matches in \<open>patient with CHF\<close> and not in \<open>patient with chf\<close>.
\<close>

theorem findTerms_required_casing:
  assumes "reachable toLowerCase (automaton m)"
  shows "\<exists>res vs m'. findTerms toLowerCase B m text = Some (Inr (res, m'))
           \<and> acceptedMatches toLowerCase B m text = Some (Inr (vs, m'))
           \<and> set res \<subseteq> outputFormat ` set vs
           \<and> (\<forall>v\<in>set vs. \<forall>meta oc.
                 getPatternMetadata (index m) (pattern v) = Some meta \<and> isCaseSensitive meta
                 \<and> originalCase meta = Some oc \<and> oc \<noteq> []
                 \<longrightarrow> slice text (start v) (end' v) = oc)"
proof -
  from acceptedMatches_returns [OF assms, of B "text"] obtain vs m' where
    a: "acceptedMatches toLowerCase B m text = Some (Inr (vs, m'))" "index m' = index m"
       "\<forall>v\<in>set vs. acceptedHit B m' text v" by blast
  let ?res = "map outputFormat (removeOverlaps vs)"
  have f: "findTerms toLowerCase B m text = Some (Inr (?res, m'))"
    using a(1) by (simp add: findTerms_acceptedMatches)
  have "slice text (start v) (end' v) = oc"
    if "v \<in> set vs" "getPatternMetadata (index m) (pattern v) = Some meta" "isCaseSensitive meta"
      "originalCase meta = Some oc" "oc \<noteq> []" for v meta oc
  proof -
    have "isValidCaseMatch (index m) text (start v) (end' v) (pattern v)"
      using a(2,3) that(1) acceptedHit_case by fastforce
    then show ?thesis using that(2-5) by (simp add: isValidCaseMatch_def)
  qed
  then have "\<forall>v\<in>set vs. \<forall>meta oc.
                 getPatternMetadata (index m) (pattern v) = Some meta \<and> isCaseSensitive meta
                 \<and> originalCase meta = Some oc \<and> oc \<noteq> []
                 \<longrightarrow> slice text (start v) (end' v) = oc" by blast
  with f a(1) removeOverlaps_image [of vs] show ?thesis by blast
qed

theorem findTerms_required_casing_witness:
  "map_option (map_sum id fst) (findTerms asciiLower [] (TermMatcher chfIndex) (js ''patient with CHF''))
     = Some (Inr [\<lparr>start = 13, end' = 16, termIds = [js ''heart-failure-001'']\<rparr>])
   \<and> slice (js ''patient with CHF'') 13 16 = js ''CHF''
   \<and> map_option (map_sum id fst) (findTerms asciiLower [] (TermMatcher chfIndex) (js ''patient with chf''))
     = Some (Inr [])
   \<and> (\<exists>res vs m'. findTerms asciiLower [] (TermMatcher chfIndex) (js ''patient with CHF'')
                     = Some (Inr (res, m'))
           \<and> acceptedMatches asciiLower [] (TermMatcher chfIndex) (js ''patient with CHF'')
                     = Some (Inr (vs, m'))
           \<and> set res \<subseteq> outputFormat ` set vs
           \<and> (\<forall>v\<in>set vs. \<forall>meta oc.
                 getPatternMetadata (index (TermMatcher chfIndex)) (pattern v) = Some meta
                 \<and> isCaseSensitive meta \<and> originalCase meta = Some oc \<and> oc \<noteq> []
                 \<longrightarrow> slice (js ''patient with CHF'') (start v) (end' v) = oc))"
proof -
  have 1: "map_option (map_sum id fst) (findTerms asciiLower [] (TermMatcher chfIndex) (js ''patient with CHF''))
     = Some (Inr [\<lparr>start = 13, end' = 16, termIds = [js ''heart-failure-001'']\<rparr>])"
    by code_simp
  have 2: "slice (js ''patient with CHF'') 13 16 = js ''CHF''" by code_simp
  have 3: "map_option (map_sum id fst) (findTerms asciiLower [] (TermMatcher chfIndex) (js ''patient with chf''))
     = Some (Inr [])"
    by code_simp
  have 4: "\<exists>res vs m'. findTerms asciiLower [] (TermMatcher chfIndex) (js ''patient with CHF'')
                     = Some (Inr (res, m'))
           \<and> acceptedMatches asciiLower [] (TermMatcher chfIndex) (js ''patient with CHF'')
                     = Some (Inr (vs, m'))
           \<and> set res \<subseteq> outputFormat ` set vs
           \<and> (\<forall>v\<in>set vs. \<forall>meta oc.
                 getPatternMetadata (index (TermMatcher chfIndex)) (pattern v) = Some meta
                 \<and> isCaseSensitive meta \<and> originalCase meta = Some oc \<and> oc \<noteq> []
                 \<longrightarrow> slice (js ''patient with CHF'') (start v) (end' v) = oc)"
    by (rule findTerms_required_casing) (rule reachable_TermMatcher)
  from 1 2 3 4 show ?thesis by (intro conjI)
qed

subsection \<open>Excluded patterns\<close>

text \<open>
  C7.  Whatever the text and the index, no hit that \<open>findTerms\<close> accepts has a
  pattern of the exclusion list, and every match returned comes from an accepted
  hit.  The automaton holds the patterns lowercased, so this is so whatever the
  casing of the pattern or of the text.
\<close>

theorem findTerms_never_excluded:
  assumes "reachable toLowerCase (automaton m)"
  shows "\<exists>res vs m'. findTerms toLowerCase B m text = Some (Inr (res, m'))
           \<and> acceptedMatches toLowerCase B m text = Some (Inr (vs, m'))
           \<and> set res \<subseteq> outputFormat ` set vs
           \<and> (\<forall>v\<in>set vs. pattern v \<notin> set EXCLUDED_PATTERNS)"
proof -
  from acceptedMatches_returns [OF assms, of B "text"] obtain vs m' where
    a: "acceptedMatches toLowerCase B m text = Some (Inr (vs, m'))"
       "\<forall>v\<in>set vs. acceptedHit B m' text v" by blast
  let ?res = "map outputFormat (removeOverlaps vs)"
  have f: "findTerms toLowerCase B m text = Some (Inr (?res, m'))"
    using a(1) by (simp add: findTerms_acceptedMatches)
  have "\<forall>v\<in>set vs. pattern v \<notin> set EXCLUDED_PATTERNS" using a(2) acceptedHit_excluded by blast
  with f a(1) removeOverlaps_image [of vs] show ?thesis by blast
qed

theorem findTerms_never_excluded_witness:
  "map_option (map_sum id fst)
     (findTerms asciiLower [] (TermMatcher asIndex) (js ''Diagnosed as severe''))
   = Some (Inr [\<lparr>start = 13, end' = 19, termIds = [js ''severity'']\<rparr>])
   \<and> map_option (map_sum id (map pattern \<circ> fst))
     (acceptedMatches asciiLower [] (TermMatcher asIndex) (js ''Diagnosed as severe''))
   = Some (Inr [js ''severe''])
   \<and> (\<exists>res vs m'. findTerms asciiLower [] (TermMatcher asIndex) (js ''Diagnosed as severe'')
                     = Some (Inr (res, m'))
           \<and> acceptedMatches asciiLower [] (TermMatcher asIndex) (js ''Diagnosed as severe'')
                     = Some (Inr (vs, m'))
           \<and> set res \<subseteq> outputFormat ` set vs
           \<and> (\<forall>v\<in>set vs. pattern v \<notin> set EXCLUDED_PATTERNS))"
proof -
  have 1: "map_option (map_sum id fst)
     (findTerms asciiLower [] (TermMatcher asIndex) (js ''Diagnosed as severe''))
   = Some (Inr [\<lparr>start = 13, end' = 19, termIds = [js ''severity'']\<rparr>])"
    by code_simp
  have 2: "map_option (map_sum id (map pattern \<circ> fst))
     (acceptedMatches asciiLower [] (TermMatcher asIndex) (js ''Diagnosed as severe''))
   = Some (Inr [js ''severe''])"
    by code_simp
  have 3: "\<exists>res vs m'. findTerms asciiLower [] (TermMatcher asIndex) (js ''Diagnosed as severe'')
                     = Some (Inr (res, m'))
           \<and> acceptedMatches asciiLower [] (TermMatcher asIndex) (js ''Diagnosed as severe'')
                     = Some (Inr (vs, m'))
           \<and> set res \<subseteq> outputFormat ` set vs
           \<and> (\<forall>v\<in>set vs. pattern v \<notin> set EXCLUDED_PATTERNS)"
    by (rule findTerms_never_excluded) (rule reachable_TermMatcher)
  from 1 2 3 show ?thesis by (intro conjI)
qed

subsection \<open>Building twice, searching unbuilt\<close>

text \<open>
  C8.  On a reachable automaton \<open>build\<close> returns; building the result again changes
  nothing; and \<open>search\<close> gives the same matches, and leaves the same automaton, on
  the automaton as it is and on the built one.
\<close>

theorem build_idempotent:
  assumes "reachable toLowerCase ac"
  shows "\<exists>ac1 rs. build ac = Some ac1 \<and> build ac1 = Some ac1
           \<and> search toLowerCase ac text = Some (rs, ac1)
           \<and> search toLowerCase ac1 text = Some (rs, ac1)"
proof -
  from search_returns [OF reachable_wf [OF assms], of toLowerCase "text"] obtain rs ac1 where
    s: "search toLowerCase ac text = Some (rs, ac1)" "build ac = Some ac1" by blast
  from build_returns [OF reachable_wf [OF assms]] s(2) have "built ac1" by auto
  then have b: "build ac1 = Some ac1" by (simp add: build_unfold)
  have "search toLowerCase ac1 text = Some (rs, ac1)"
    using s b by (simp add: search_unfold split: option.splits)
  with s b show ?thesis by blast
qed

lemma reachable_heAutomaton: "reachable asciiLower heAutomaton"
proof -
  from addPatterns_strings [OF reachable_new, of asciiLower "[js ''he'', js ''she'']"]
  show ?thesis by (auto simp add: heAutomaton_def)
qed

theorem build_idempotent_witness:
  "map_option fst (search asciiLower heAutomaton (js ''ushers''))
     = Some [\<lparr>start = 1, end' = 4, pattern = js ''she''\<rparr>, \<lparr>start = 2, end' = 4, pattern = js ''he''\<rparr>]
   \<and> (\<exists>ac1 rs. build heAutomaton = Some ac1 \<and> build ac1 = Some ac1
           \<and> search asciiLower heAutomaton (js ''ushers'') = Some (rs, ac1)
           \<and> search asciiLower ac1 (js ''ushers'') = Some (rs, ac1))"
proof -
  have 1: "map_option fst (search asciiLower heAutomaton (js ''ushers''))
     = Some [\<lparr>start = 1, end' = 4, pattern = js ''she''\<rparr>, \<lparr>start = 2, end' = 4, pattern = js ''he''\<rparr>]"
    by code_simp
  have 2: "\<exists>ac1 rs. build heAutomaton = Some ac1 \<and> build ac1 = Some ac1
           \<and> search asciiLower heAutomaton (js ''ushers'') = Some (rs, ac1)
           \<and> search asciiLower ac1 (js ''ushers'') = Some (rs, ac1)"
    by (rule build_idempotent) (rule reachable_heAutomaton)
  from 1 2 show ?thesis by (intro conjI)
qed

subsection \<open>Malformed input\<close>

text \<open>A number is not a string, and \<open>addPattern\<close> throws on it.\<close>

theorem addPattern_number_throws:
  "addPattern asciiLower AhoCorasick (JNumber 42) = Inl TypeError"
  by (simp add: addPattern_def)

text \<open>
  C9, amended.  For a falsy pattern (the empty string, \<open>null\<close>, \<open>undefined\<close>,
  \<open>false\<close>, 0) \<open>addPattern\<close> returns with the automaton unchanged; for any other
  value that is not a string it throws a \<open>TypeError\<close>.  On strings nothing throws and
  every call returns: \<open>addPattern\<close>, \<open>addPatterns\<close>, \<open>build\<close>, \<open>search\<close> and
  \<open>findTerms\<close>; \<open>search\<close> finds nothing in the empty text and \<open>findTerms\<close> returns
  the empty sequence for it.
\<close>

theorem malformed_input:
  assumes lc: "toLowerCase [] = []"
    and ac: "reachable toLowerCase ac"
    and m: "reachable toLowerCase (automaton m)"
  shows "(\<not> truthy p \<longrightarrow> addPattern toLowerCase ac p = Inr ac)
         \<and> (truthy p \<and> (\<forall>s. p \<noteq> JString s) \<longrightarrow> addPattern toLowerCase ac p = Inl TypeError)
         \<and> (\<exists>ac'. addPattern toLowerCase ac (JString s) = Inr ac')
         \<and> (\<exists>ac'. addPatterns toLowerCase ac (map JString ps) = Inr ac')
         \<and> (\<exists>ac'. build ac = Some ac')
         \<and> (\<exists>ac'. search toLowerCase ac [] = Some ([], ac'))
         \<and> (\<exists>rs ac'. search toLowerCase ac text = Some (rs, ac'))
         \<and> (\<exists>m'. findTerms toLowerCase B m [] = Some (Inr ([], m')))
         \<and> (\<exists>res m'. findTerms toLowerCase B m text = Some (Inr (res, m')))"
proof (intro conjI)
  show "\<not> truthy p \<longrightarrow> addPattern toLowerCase ac p = Inr ac" by (simp add: addPattern_def)
  show "truthy p \<and> (\<forall>s. p \<noteq> JString s) \<longrightarrow> addPattern toLowerCase ac p = Inl TypeError"
    by (cases p) (simp_all add: addPattern_def)
  show "\<exists>ac'. addPattern toLowerCase ac (JString s) = Inr ac'"
    by (cases "s = []") (simp_all add: addPattern_String)
  show "\<exists>ac'. addPatterns toLowerCase ac (map JString ps) = Inr ac'"
    using addPatterns_strings [OF ac] by blast
  show "\<exists>ac'. build ac = Some ac'" using build_returns [OF reachable_wf [OF ac]] by blast
  from build_returns [OF reachable_wf [OF ac]] obtain ac' where "build ac = Some ac'" by blast
  then show "\<exists>ac'. search toLowerCase ac [] = Some ([], ac')"
    by (simp add: search_unfold lc)
  show "\<exists>rs ac'. search toLowerCase ac text = Some (rs, ac')"
    using search_returns [OF reachable_wf [OF ac], of toLowerCase "text"] by blast
  from initialize_returns [OF m] obtain m1 where "initialize toLowerCase m = Some (Inr m1)"
    by blast
  then show "\<exists>m'. findTerms toLowerCase B m [] = Some (Inr ([], m'))"
    by (simp add: findTerms_def)
  from acceptedMatches_returns [OF m, of B "text"]
  show "\<exists>res m'. findTerms toLowerCase B m text = Some (Inr (res, m'))"
    by (auto simp add: findTerms_acceptedMatches)
qed

theorem malformed_input_witness:
  "addPattern asciiLower heAutomaton (JString []) = Inr heAutomaton
   \<and> addPattern asciiLower heAutomaton JNull = Inr heAutomaton
   \<and> addPattern asciiLower heAutomaton JUndefined = Inr heAutomaton
   \<and> addPattern asciiLower heAutomaton (JObject (js ''Array'')) = Inl TypeError
   \<and> map_option fst (search asciiLower heAutomaton []) = Some []
   \<and> map_option (map_sum id fst) (findTerms asciiLower [] (TermMatcher chfIndex) [])
       = Some (Inr [])"
proof -
  have lc: "asciiLower [] = []" by (simp add: asciiLower_def)
  have t: "\<not> truthy (JString [])" "\<not> truthy JNull" "\<not> truthy JUndefined"
    "truthy (JObject (js ''Array'')) \<and> (\<forall>s. JObject (js ''Array'') \<noteq> JString s)"
    by simp_all
  note inst = malformed_input [OF lc reachable_heAutomaton
      reachable_TermMatcher [of asciiLower chfIndex], where B = "[]"]
  from inst [where p = "JString []"] t(1)
  have 1: "addPattern asciiLower heAutomaton (JString []) = Inr heAutomaton" by blast
  from inst [where p = JNull] t(2)
  have 2: "addPattern asciiLower heAutomaton JNull = Inr heAutomaton" by blast
  from inst [where p = JUndefined] t(3)
  have 3: "addPattern asciiLower heAutomaton JUndefined = Inr heAutomaton" by blast
  from inst [where p = "JObject (js ''Array'')"] t(4)
  have 4: "addPattern asciiLower heAutomaton (JObject (js ''Array'')) = Inl TypeError" by blast
  from inst [where p = JNull]
  obtain ac' where "search asciiLower heAutomaton [] = Some ([], ac')" by blast
  then have 5: "map_option fst (search asciiLower heAutomaton []) = Some []" by simp
  from inst [where p = JNull]
  obtain m' where "findTerms asciiLower [] (TermMatcher chfIndex) [] = Some (Inr ([], m'))"
    by blast
  then have 6: "map_option (map_sum id fst) (findTerms asciiLower [] (TermMatcher chfIndex) [])
       = Some (Inr [])" by simp
  from 1 2 3 4 5 6 show ?thesis by (intro conjI)
qed

subsection \<open>Patterns outside the Basic Multilingual Plane\<close>

text \<open>
  C1.  \<open>addPattern\<close> walks the pattern by code points, \<open>search\<close> walks the text by
  code units.  The pattern U+1F600, a surrogate pair, becomes one edge labelled with
  the two-unit string, which no single unit of the text equals: \<open>search\<close> reports
  nothing in the text that consists of this very pattern.
\<close>

theorem search_misses_astral_pattern:
  "addPattern asciiLower AhoCorasick (JString [0xD83D, 0xDE00])
     = Inr \<lparr>nodes = [\<lparr>children = [([0xD83D, 0xDE00], 1)], fail = None, outputs = [], depth = 0\<rparr>,
                     \<lparr>children = [], fail = None, outputs = [[0xD83D, 0xDE00]], depth = 1\<rparr>],
            built = False\<rparr>
   \<and> map_option fst
       (search asciiLower
          \<lparr>nodes = [\<lparr>children = [([0xD83D, 0xDE00], 1)], fail = None, outputs = [], depth = 0\<rparr>,
                    \<lparr>children = [], fail = None, outputs = [[0xD83D, 0xDE00]], depth = 1\<rparr>],
           built = False\<rparr>
          [0xD83D, 0xDE00])
     = Some []
   \<and> asciiLower [0xD83D, 0xDE00] = [0xD83D, 0xDE00]"
  by code_simp

section \<open>The case-sensitivity rules\<close>

lemma sentenceCase_code:
  assumes "list_ex isAsciiUpper s"
  shows "(take 1 s = toUpperCase (take 1 s) \<and> drop 1 s = toLowerCase (drop 1 s))
           \<longleftrightarrow> sentenceCase toLowerCase toUpperCase s"
  using assms by (cases s) (auto simp add: sentenceCase_def)

text \<open>
  C4.  \<open>shouldBeCaseSensitive\<close> normalizes the pattern (lowercase, trimmed), trims the
  original and then applies exactly the specified cascade, in its order: an excluded
  pattern is not case sensitive; a pattern from an abbreviation field of length at
  most 6 is case sensitive with the original uppercased; a pattern of length at most
  4 whose original is entirely uppercase is case sensitive with the original as it
  is; a pattern of length at most 6 whose original contains an uppercase letter and
  is not in sentence case is case sensitive with the original as it is; a pattern of
  length 2 to 4 of lowercase letters only that is not a common word is case
  sensitive with its uppercased form; anything else is not case sensitive.
\<close>

theorem shouldBeCaseSensitive_cascade:
  "shouldBeCaseSensitive toLowerCase toUpperCase pat original isFromAbbr
     = classifySpec toLowerCase toUpperCase (trim (toLowerCase pat)) (trim original) isFromAbbr"
proof -
  let ?o = "trim original"
  have up: "list_ex isAsciiUpper ?o = containsUppercaseLetter ?o"
    by (simp add: containsUppercaseLetter_def list_ex_iff isAsciiUpper_def)
  have lo: "list_all isAsciiLower s = (\<forall>c\<in>set s. 0x61 \<le> c \<and> c \<le> 0x7A)" for s
    by (simp add: list_all_iff isAsciiLower_def)
  have sc: "(list_ex isAsciiUpper ?o
              \<and> \<not> (take 1 ?o = toUpperCase (take 1 ?o) \<and> drop 1 ?o = toLowerCase (drop 1 ?o)))
            = (containsUppercaseLetter ?o \<and> \<not> sentenceCase toLowerCase toUpperCase ?o)"
    using sentenceCase_code [of ?o toUpperCase toLowerCase] up by blast
  have eu: "(?o = toUpperCase ?o) = entirelyUppercase toUpperCase ?o"
    by (auto simp add: entirelyUppercase_def)
  show ?thesis
    unfolding shouldBeCaseSensitive_def classifySpec_def Let_def caseSensitive_def
      notCaseSensitive_def onlyLowercaseLetters_def lo [symmetric]
    using sc eu by auto
qed

theorem shouldBeCaseSensitive_cascade_witness:
  "shouldBeCaseSensitive asciiLower asciiUpper (js ''as'') (js ''AS'') True
     = \<lparr>isCaseSensitive = False, originalCase = None\<rparr>
   \<and> shouldBeCaseSensitive asciiLower asciiUpper (js ''chf'') (js '' chf '') True
     = \<lparr>isCaseSensitive = True, originalCase = Some (js ''CHF'')\<rparr>
   \<and> shouldBeCaseSensitive asciiLower asciiUpper (js ''mi'') (js ''MI'') False
     = \<lparr>isCaseSensitive = True, originalCase = Some (js ''MI'')\<rparr>
   \<and> shouldBeCaseSensitive asciiLower asciiUpper (js ''hba1c'') (js ''HbA1c'') False
     = \<lparr>isCaseSensitive = True, originalCase = Some (js ''HbA1c'')\<rparr>
   \<and> shouldBeCaseSensitive asciiLower asciiUpper (js ''copd'') (js ''Copd'') False
     = \<lparr>isCaseSensitive = True, originalCase = Some (js ''COPD'')\<rparr>
   \<and> shouldBeCaseSensitive asciiLower asciiUpper (js ''flu'') (js ''flu'') False
     = \<lparr>isCaseSensitive = False, originalCase = None\<rparr>
   \<and> shouldBeCaseSensitive asciiLower asciiUpper (js ''hypertension'') (js ''Hypertension'') False
     = \<lparr>isCaseSensitive = False, originalCase = None\<rparr>"
proof -
  have 1: "classifySpec asciiLower asciiUpper (trim (asciiLower (js ''as''))) (trim (js ''AS'')) True
     = \<lparr>isCaseSensitive = False, originalCase = None\<rparr>" by code_simp
  have 2: "classifySpec asciiLower asciiUpper (trim (asciiLower (js ''chf''))) (trim (js '' chf '')) True
     = \<lparr>isCaseSensitive = True, originalCase = Some (js ''CHF'')\<rparr>" by code_simp
  have 3: "classifySpec asciiLower asciiUpper (trim (asciiLower (js ''mi''))) (trim (js ''MI'')) False
     = \<lparr>isCaseSensitive = True, originalCase = Some (js ''MI'')\<rparr>" by code_simp
  have 4: "classifySpec asciiLower asciiUpper (trim (asciiLower (js ''hba1c''))) (trim (js ''HbA1c'')) False
     = \<lparr>isCaseSensitive = True, originalCase = Some (js ''HbA1c'')\<rparr>" by code_simp
  have 5: "classifySpec asciiLower asciiUpper (trim (asciiLower (js ''copd''))) (trim (js ''Copd'')) False
     = \<lparr>isCaseSensitive = True, originalCase = Some (js ''COPD'')\<rparr>" by code_simp
  have 6: "classifySpec asciiLower asciiUpper (trim (asciiLower (js ''flu''))) (trim (js ''flu'')) False
     = \<lparr>isCaseSensitive = False, originalCase = None\<rparr>" by code_simp
  have 7: "classifySpec asciiLower asciiUpper (trim (asciiLower (js ''hypertension'')))
       (trim (js ''Hypertension'')) False
     = \<lparr>isCaseSensitive = False, originalCase = None\<rparr>" by code_simp
  from 1 2 3 4 5 6 7 show ?thesis
    by (simp only: shouldBeCaseSensitive_cascade)
qed

end
